theory Spec2Isabelle
  imports Main "HOL-Library.AList" "HOL-Library.Sublist"
begin

chapter \<open>The model\<close>

section \<open>Worker coordination protocol (electron/main/worker/workerManager.ts)\<close>

text \<open>
  The controlling side keeps a \<open>Map\<close> of pending requests keyed by a correlation id
  \<^verbatim>\<open>req_n\<close> where \<open>n\<close> is the value of \<open>requestIdCounter\<close> after its increment. The id is
  modelled by that number. A pending entry holds the promise's \<open>resolve\<close> and \<open>reject\<close>
  and an optional \<open>onProgress\<close>; the model keeps whether \<open>onProgress\<close> was given and
  records every invocation of one of the three callbacks in \<open>calls\<close>, oldest first.
  The \<open>Map\<close> is an association list in insertion order, because the exit handler
  iterates over it.
\<close>

type_synonym req_id = nat

datatype call =
    ResolveCall req_id string
  | RejectCall "req_id option" string
  | ProgressCall req_id string

text \<open>A message posted by the worker: \<open>{id, type, success, result, error, payload}\<close>.\<close>

record worker_message =
  m_id :: req_id
  m_type :: string
  m_success :: bool
  m_result :: string
  m_error :: string
  m_payload :: string

text \<open>
  The module state: \<open>worker\<close> (whether the module variable is non-null),
  \<open>pendingRequests\<close>, \<open>requestIdCounter\<close>, the callbacks armed with \<open>setTimeout\<close>
  (request id and the \<open>type\<close> captured by the closure), the messages posted to the
  worker, and the callback invocations.
\<close>

record manager =
  worker :: bool
  pendingRequests :: "(req_id \<times> bool) list"
  requestIdCounter :: nat
  timers :: "(req_id \<times> string) list"
  posted :: "(req_id \<times> string) list"
  calls :: "call list"

definition init_manager :: manager where
  "init_manager = \<lparr> worker = False, pendingRequests = [], requestIdCounter = 0,
     timers = [], posted = [], calls = [] \<rparr>"

definition has_pending :: "req_id \<Rightarrow> manager \<Rightarrow> bool" where
  "has_pending i s = (map_of (pendingRequests s) i \<noteq> None)"

definition invoke :: "call \<Rightarrow> manager \<Rightarrow> manager" where
  "invoke c s = s\<lparr> calls := calls s @ [c] \<rparr>"

definition delete_pending :: "req_id \<Rightarrow> manager \<Rightarrow> manager" where
  "delete_pending i s = s\<lparr> pendingRequests := AList.delete i (pendingRequests s) \<rparr>"

text \<open>
  The \<open>message\<close> listener of \<open>initWorker\<close>: an unknown id is ignored; a progress message
  calls \<open>onProgress\<close> when there is one and leaves the entry; any other message deletes
  the entry and then resolves or rejects.
\<close>

definition on_message :: "worker_message \<Rightarrow> manager \<Rightarrow> manager" where
  "on_message m s =
     (case map_of (pendingRequests s) (m_id m) of
        None \<Rightarrow> s
      | Some onProgress \<Rightarrow>
          if m_type m = ''progress''
          then (if onProgress then invoke (ProgressCall (m_id m) (m_payload m)) s else s)
          else if m_success m
               then invoke (ResolveCall (m_id m) (m_result m)) (delete_pending (m_id m) s)
               else invoke (RejectCall (Some (m_id m)) (m_error m)) (delete_pending (m_id m) s))"

text \<open>
  The \<open>exit\<close> listener: \<open>worker = null\<close>, then the loop over
  \<open>pendingRequests.entries()\<close> that rejects each entry and deletes it.
\<close>

fun reject_all :: "(req_id \<times> bool) list \<Rightarrow> manager \<Rightarrow> manager" where
  "reject_all [] s = s"
| "reject_all ((i, p) # rest) s =
     reject_all rest
       (delete_pending i (invoke (RejectCall (Some i) ''Worker exited unexpectedly'') s))"

definition on_exit :: "manager \<Rightarrow> manager" where
  "on_exit s = reject_all (pendingRequests s) (s\<lparr> worker := False \<rparr>)"

text \<open>
  The callback given to \<open>setTimeout\<close>. It runs only if it was armed, and once; it
  rejects only if the id is still pending.
\<close>

definition on_timeout :: "req_id \<Rightarrow> manager \<Rightarrow> manager" where
  "on_timeout i s =
     (case map_of (timers s) i of
        None \<Rightarrow> s
      | Some ty \<Rightarrow>
          let s1 = s\<lparr> timers := AList.delete i (timers s) \<rparr>
          in if has_pending i s1
             then invoke (RejectCall (Some i) (''Worker request timeout: '' @ ty))
                    (delete_pending i s1)
             else s1)"

text \<open>
  \<open>sendToWorkerWithProgress\<close>. \<open>init_ok\<close> says whether \<open>initWorker\<close> would succeed if
  it had to be called; when it throws the promise is rejected and no id is taken.
  \<open>sendToWorker\<close> has the same body with no \<open>onProgress\<close> (and a shorter delay, which
  the model does not measure: the timer is an event).
\<close>

definition sendToWorkerWithProgress :: "string \<Rightarrow> bool \<Rightarrow> bool \<Rightarrow> manager \<Rightarrow> manager" where
  "sendToWorkerWithProgress ty onProgress init_ok s =
     (if \<not> worker s \<and> \<not> init_ok
      then invoke (RejectCall None ''Worker not initialized'') s
      else let i = Suc (requestIdCounter s)
           in s\<lparr> worker := True,
                 requestIdCounter := i,
                 pendingRequests := AList.update i onProgress (pendingRequests s),
                 posted := posted s @ [(i, ty)],
                 timers := timers s @ [(i, ty)] \<rparr>)"

definition sendToWorker :: "string \<Rightarrow> bool \<Rightarrow> manager \<Rightarrow> manager" where
  "sendToWorker ty init_ok s = sendToWorkerWithProgress ty False init_ok s"

text \<open>What can happen to the module, in any order.\<close>

datatype event =
    Send string bool bool
  | WorkerMessage worker_message
  | TimerFires req_id
  | WorkerExit

fun handle :: "event \<Rightarrow> manager \<Rightarrow> manager" where
  "handle (Send ty onProgress init_ok) s = sendToWorkerWithProgress ty onProgress init_ok s"
| "handle (WorkerMessage m) s = on_message m s"
| "handle (TimerFires i) s = on_timeout i s"
| "handle WorkerExit s = on_exit s"

fun run :: "event list \<Rightarrow> manager \<Rightarrow> manager" where
  "run [] s = s"
| "run (e # es) s = run es (handle e s)"

text \<open>How often the promise of request \<open>i\<close> was resolved or rejected.\<close>

fun settles :: "req_id \<Rightarrow> call \<Rightarrow> bool" where
  "settles i (ResolveCall j r) = (i = j)"
| "settles i (RejectCall j e) = (j = Some i)"
| "settles i (ProgressCall j p) = False"

definition settle_count :: "req_id \<Rightarrow> manager \<Rightarrow> nat" where
  "settle_count i s = length (filter (settles i) (calls s))"

text \<open>
  The events that end request \<open>i\<close>: a non-progress message for it, its own timer, and
  the exit of the worker.
\<close>

fun terminal_for :: "req_id \<Rightarrow> event \<Rightarrow> bool" where
  "terminal_for i (WorkerMessage m) = (m_id m = i \<and> m_type m \<noteq> ''progress'')"
| "terminal_for i WorkerExit = True"
| "terminal_for i (TimerFires j) = (i = j)"
| "terminal_for i (Send ty p ok) = False"

text \<open>Invariants of the reachable states.\<close>

definition mgr_inv :: "manager \<Rightarrow> bool" where
  "mgr_inv s =
     (distinct (map fst (pendingRequests s)) \<and>
      (\<forall>i. has_pending i s \<longrightarrow> i \<le> requestIdCounter s \<and> settle_count i s = 0) \<and>
      (\<forall>i. settle_count i s \<le> 1) \<and>
      (\<forall>i. requestIdCounter s < i \<longrightarrow> settle_count i s = 0))"

definition timers_inv :: "manager \<Rightarrow> bool" where
  "timers_inv s = (\<forall>j\<in>fst ` set (timers s). j \<le> requestIdCounter s)"

text \<open>Concrete messages and a state with two pending requests, for the examples.\<close>

definition ex_progress :: worker_message where
  "ex_progress = \<lparr> m_id = 1, m_type = ''progress'', m_success = False, m_result = '''',
     m_error = '''', m_payload = ''50%'' \<rparr>"

definition ex_done :: worker_message where
  "ex_done = \<lparr> m_id = 1, m_type = ''result'', m_success = True, m_result = ''ok'',
     m_error = '''', m_payload = '''' \<rparr>"

definition ex_two_pending :: manager where
  "ex_two_pending =
     run [Send ''streamImport'' True True, Send ''getSession'' False True] init_manager"

section \<open>The store and the file system\<close>

text \<open>
  The four tables that \<open>createDatabase\<close> declares, a row a record, a table the list of
  its rows in insertion order. Every \<open>id\<close> column is \<open>INTEGER PRIMARY KEY
  AUTOINCREMENT\<close>: the id of a new row is one more than the largest id that the table
  has generated so far, which SQLite keeps in \<open>sqlite_sequence\<close>. The tables
  \<open>member_name_history\<close> and \<open>message\<close> receive plain \<open>INSERT\<close>s only and no
  row is deleted, so for them that number is the number of rows. For \<open>member\<close> it is
  \<open>member_seq\<close>: an \<open>INSERT OR IGNORE\<close> that is ignored has generated an id all the
  same. Timestamps are integers here (the source has JavaScript numbers; \<open>NaN\<close> is
  filtered before a row is written).
\<close>

record meta_row =
  meta_name :: string
  meta_platform :: string
  meta_type :: string
  imported_at :: int

record member_row =
  member_id :: nat
  platform_id :: string
  member_name :: string
  nickname :: "string option"

record name_history_row =
  nh_id :: nat
  nh_member_id :: nat
  nh_name :: string
  start_ts :: int
  end_ts :: "int option"

record message_row =
  msg_id :: nat
  sender_id :: nat
  ts :: int
  msg_type :: int
  msg_content :: "string option"

record tables =
  meta :: "meta_row list"
  member :: "member_row list"
  member_name_history :: "name_history_row list"
  message :: "message_row list"
  member_seq :: nat

definition empty_tables :: tables where
  "empty_tables =
     \<lparr> meta = [], member = [], member_name_history = [], message = [], member_seq = 0 \<rparr>"

text \<open>
  A file is a database with its committed tables or any other data; the file system maps
  the paths that exist to their files. Directories are not modelled.
\<close>

type_synonym path = string

datatype content = Data | Db tables

type_synonym filesystem = "path \<Rightarrow> content option"

text \<open>
  What the operating system decides: the directory \<open>os.tmpdir()\<close> returns, and the
  error with which removing a given file fails, if it does (a permission, a lock).
\<close>

record os_env =
  tmpdir :: path
  unlink_error :: "path \<Rightarrow> string option"

definition existsSync :: "path \<Rightarrow> filesystem \<Rightarrow> bool" where
  "existsSync p fs = (fs p \<noteq> None)"

definition unlinkSync :: "'a os_env_scheme \<Rightarrow> path \<Rightarrow> filesystem \<Rightarrow> string + filesystem" where
  "unlinkSync env p fs =
     (if fs p = None then Inl ''ENOENT''
      else case unlink_error env p of
             Some e \<Rightarrow> Inl e
           | None \<Rightarrow> Inr (fs(p := None)))"

text \<open>
  \<open>path.join\<close> of a directory and a file name. The directory is taken as normalised,
  as \<open>os.tmpdir()\<close> and the database directory are; only a trailing separator is
  handled.
\<close>

definition path_join :: "path \<Rightarrow> string \<Rightarrow> path" where
  "path_join dir file =
     (if dir = [] then file
      else if last dir = CHR ''/'' then dir @ file
      else dir @ ''/'' @ file)"

section \<open>The cleanup of the preprocessor (formats/shuakami-qq-preprocessor.ts)\<close>

definition getTempDir :: "'a os_env_scheme \<Rightarrow> path" where
  "getTempDir env = path_join (tmpdir env) ''chatlab''"

text \<open>\<open>String.prototype.includes\<close>: \<open>js_includes s t\<close> is \<open>s.includes(t)\<close>.\<close>

fun js_includes :: "string \<Rightarrow> string \<Rightarrow> bool" where
  "js_includes [] t = (t = [])"
| "js_includes (c # s) t = (prefix t (c # s) \<or> js_includes s t)"

text \<open>
  \<open>cleanupTempFile\<close>: the body of the \<open>try\<close> may throw (only \<open>unlinkSync\<close> can);
  the empty \<open>catch\<close> turns that into a normal return with the files as they were.
\<close>

definition cleanupTempFile :: "'a os_env_scheme \<Rightarrow> path \<Rightarrow> filesystem \<Rightarrow> string + filesystem" where
  "cleanupTempFile env filePath fs =
     (case (if existsSync filePath fs \<and> js_includes filePath (getTempDir env)
            then unlinkSync env filePath fs
            else Inr fs) of
        Inl e \<Rightarrow> Inr fs
      | Inr fs' \<Rightarrow> Inr fs')"

text \<open>
  What the specification asks of the guard: the file lies under the temporary
  directory, that is, its path starts with the directory and a separator.
\<close>

definition lies_under :: "path \<Rightarrow> path \<Rightarrow> bool" where
  "lies_under dir p = (prefix (dir @ ''/'') p \<and> p \<noteq> dir @ ''/'')"

text \<open>An operating system with \<open>/tmp\<close> as its temporary directory, where no removal fails.\<close>

definition no_unlink_error :: "path \<Rightarrow> string option" where
  "no_unlink_error p = None"

definition ex_os :: os_env where
  "ex_os = \<lparr> tmpdir = ''/tmp'', unlink_error = no_unlink_error \<rparr>"

definition ex_outside :: path where
  "ex_outside = ''/home/user/tmp/chatlab/notes.json''"

definition ex_files :: filesystem where
  "ex_files = (\<lambda>p. if p = ex_outside then Some Data else None)"

section \<open>Preprocessing (formats/shuakami-qq-preprocessor.ts)\<close>

text \<open>
  \<open>preprocessQQJson\<close> returns a promise and does its work in the listeners of three
  streams: \<open>headStream\<close> (first pass), the \<open>pipeline\<close> chained from \<open>readStream\<close>
  (second pass) and \<open>writeStream\<close>. The model is the state those listeners share and
  one function per listener; what the streams do is a list of events, which the
  environment chooses. An event for which no listener is registered changes nothing,
  except \<open>error\<close>: Node raises an \<open>error\<close> event without a listener as an uncaught
  exception, recorded in \<open>uncaught\<close>.

  The message values that the pipeline delivers are represented by the JSON text of
  their slimmed form, and the header object by a function of the head of the file:
  the properties below do not depend on either.
\<close>

datatype promise = Pending | Fulfilled path | Rejected string

datatype pp_event =
    HeadData string
  | HeadError string
  | HeadClose
  | ReadData nat
  | PipelineData string
  | PipelineEnd
  | PipelineError string
  | WriteFinish
  | WriteError string

record pp_state =
  promise :: promise
  pp_fs :: filesystem
  uncaught :: "string option"
  outputPath :: path
  totalBytes :: nat
  headChunks :: "string list"
  headSize :: nat
  head_destroyed :: bool
  second_pass :: bool
  written :: "string list"
  write_ended :: bool
  write_destroyed :: bool
  finish_listener :: bool
  isFirstMessage :: bool
  messagesProcessed :: nat
  bytesRead :: nat
  pp_progress :: "(string \<times> nat \<times> nat) list"

text \<open>A promise settles once: \<open>resolve\<close> and \<open>reject\<close> do nothing afterwards.\<close>

definition resolve :: "path \<Rightarrow> pp_state \<Rightarrow> pp_state" where
  "resolve p s = (if promise s = Pending then s\<lparr> promise := Fulfilled p \<rparr> else s)"

definition reject :: "string \<Rightarrow> pp_state \<Rightarrow> pp_state" where
  "reject e s = (if promise s = Pending then s\<lparr> promise := Rejected e \<rparr> else s)"

definition onProgress :: "string \<Rightarrow> nat \<Rightarrow> nat \<Rightarrow> pp_state \<Rightarrow> pp_state" where
  "onProgress stage bytes msgs s = s\<lparr> pp_progress := pp_progress s @ [(stage, bytes, msgs)] \<rparr>"

definition writeStream_write :: "string \<Rightarrow> pp_state \<Rightarrow> pp_state" where
  "writeStream_write chunk s = s\<lparr> written := written s @ [chunk] \<rparr>"

text \<open>
  What the environment supplies to a run: the operating system, the size of the input
  (or the error of \<open>getFileSize\<close>), the name of the output file
  (\<open>slim_<Date.now()>_<basename>\<close>), and the header text built from the head.
\<close>

record pp_env = os_env +
  getFileSize :: "path \<Rightarrow> string + nat"
  outputFilename :: "path \<Rightarrow> string"
  headerJson :: "string \<Rightarrow> string"

text \<open>The listeners of \<open>headStream\<close>: \<open>data\<close>, \<open>error\<close> (which is \<open>reject\<close>) and \<open>close\<close>.\<close>

definition maxHeadSize :: nat where
  "maxHeadSize = 100000"

definition on_head_data :: "string \<Rightarrow> pp_state \<Rightarrow> pp_state" where
  "on_head_data chunk s =
     (if headSize s < maxHeadSize
      then s\<lparr> headChunks := headChunks s @ [chunk], headSize := headSize s + length chunk \<rparr>
      else s\<lparr> head_destroyed := True \<rparr>)"

definition on_head_close :: "'a pp_env_scheme \<Rightarrow> pp_state \<Rightarrow> pp_state" where
  "on_head_close env s =
     (let s1 = onProgress ''parsing'' 0 0 s;
          s2 = s1\<lparr> second_pass := True, pp_fs := (pp_fs s1)(outputPath s1 \<mapsto> Data) \<rparr>
      in writeStream_write (headerJson env (concat (headChunks s2)) @ ''\<newline>'') s2)"

text \<open>The listeners of the second pass: \<open>readStream\<close>'s \<open>data\<close>, and the pipeline's
  \<open>data\<close>, \<open>end\<close> and \<open>error\<close>.\<close>

definition on_read_data :: "nat \<Rightarrow> pp_state \<Rightarrow> pp_state" where
  "on_read_data n s = s\<lparr> bytesRead := bytesRead s + n \<rparr>"

definition on_pipeline_data :: "string \<Rightarrow> pp_state \<Rightarrow> pp_state" where
  "on_pipeline_data msgJson s =
     (let s1 = (if isFirstMessage s
                then (writeStream_write msgJson s)\<lparr> isFirstMessage := False \<rparr>
                else writeStream_write ('',\<newline>'' @ msgJson) s);
          s2 = s1\<lparr> messagesProcessed := Suc (messagesProcessed s1) \<rparr>
      in if messagesProcessed s2 mod 10000 = 0
         then onProgress ''parsing'' (bytesRead s2) (messagesProcessed s2) s2
         else s2)"

definition on_pipeline_end :: "pp_state \<Rightarrow> pp_state" where
  "on_pipeline_end s =
     (writeStream_write ''\<newline>]}'' s)\<lparr> write_ended := True, finish_listener := True \<rparr>"

definition on_write_finish :: "pp_state \<Rightarrow> pp_state" where
  "on_write_finish s =
     resolve (outputPath s) (onProgress ''done'' (totalBytes s) (messagesProcessed s) s)"

definition on_pipeline_error :: "'a pp_env_scheme \<Rightarrow> string \<Rightarrow> pp_state \<Rightarrow> pp_state" where
  "on_pipeline_error env err s =
     (let s1 = s\<lparr> write_destroyed := True \<rparr>
      in case (if existsSync (outputPath s1) (pp_fs s1)
               then unlinkSync env (outputPath s1) (pp_fs s1)
               else Inr (pp_fs s1)) of
           Inl e \<Rightarrow> s1\<lparr> uncaught := Some e \<rparr>
         | Inr fs' \<Rightarrow>
             reject err
               (onProgress ''error'' (bytesRead s1) (messagesProcessed s1) (s1\<lparr> pp_fs := fs' \<rparr>)))"

text \<open>
  One event. After an uncaught exception nothing runs any more. The head stream has
  listeners from the start; the streams of the second pass exist once \<open>close\<close> has run,
  which it does once. \<open>finish\<close> has a listener only after the pipeline's \<open>end\<close>; the
  write stream never has an \<open>error\<close> listener.
\<close>

fun pp_step :: "'a pp_env_scheme \<Rightarrow> pp_event \<Rightarrow> pp_state \<Rightarrow> pp_state" where
  "pp_step env (HeadData chunk) s =
     (if second_pass s \<or> head_destroyed s then s else on_head_data chunk s)"
| "pp_step env (HeadError e) s = reject e s"
| "pp_step env HeadClose s = (if second_pass s then s else on_head_close env s)"
| "pp_step env (ReadData n) s = (if second_pass s then on_read_data n s else s)"
| "pp_step env (PipelineData j) s =
     (if second_pass s \<and> \<not> write_ended s \<and> \<not> write_destroyed s
      then on_pipeline_data j s else s)"
| "pp_step env PipelineEnd s =
     (if second_pass s \<and> \<not> write_ended s \<and> \<not> write_destroyed s
      then on_pipeline_end s else s)"
| "pp_step env (PipelineError e) s =
     (if second_pass s \<and> \<not> write_ended s \<and> \<not> write_destroyed s
      then on_pipeline_error env e s else s)"
| "pp_step env WriteFinish s =
     (if finish_listener s \<and> \<not> write_destroyed s then on_write_finish s else s)"
| "pp_step env (WriteError e) s = (if second_pass s then s\<lparr> uncaught := Some e \<rparr> else s)"

fun pp_run :: "'a pp_env_scheme \<Rightarrow> pp_event list \<Rightarrow> pp_state \<Rightarrow> pp_state" where
  "pp_run env [] s = s"
| "pp_run env (e # es) s =
     (if uncaught s \<noteq> None then s else pp_run env es (pp_step env e s))"

text \<open>
  The synchronous start of \<open>preprocessQQJson\<close> and then the events. An exception of
  \<open>getFileSize\<close> rejects the promise of the \<open>async\<close> function before any stream
  exists.
\<close>

definition pp_start :: "'a pp_env_scheme \<Rightarrow> path \<Rightarrow> nat \<Rightarrow> filesystem \<Rightarrow> pp_state" where
  "pp_start env inputPath n_total fs =
     \<lparr> promise = Pending, pp_fs = fs, uncaught = None,
       outputPath = path_join (getTempDir env) (outputFilename env inputPath),
       totalBytes = n_total, headChunks = [], headSize = 0, head_destroyed = False,
       second_pass = False, written = [], write_ended = False, write_destroyed = False,
       finish_listener = False, isFirstMessage = True, messagesProcessed = 0,
       bytesRead = 0, pp_progress = [(''parsing'', 0, 0)] \<rparr>"

definition preprocessQQJson ::
    "'a pp_env_scheme \<Rightarrow> path \<Rightarrow> pp_event list \<Rightarrow> filesystem \<Rightarrow> pp_state" where
  "preprocessQQJson env inputPath events fs =
     (case getFileSize env inputPath of
        Inl e \<Rightarrow> (pp_start env inputPath 0 fs)\<lparr> promise := Rejected e, pp_progress := [] \<rparr>
      | Inr n_total \<Rightarrow> pp_run env events (pp_start env inputPath n_total fs))"

section \<open>The import engine (worker module of workerManager.ts: streamImport)\<close>

subsection \<open>What the parser delivers\<close>

text \<open>
  A JavaScript number that may be \<open>NaN\<close>. The fields of a parsed message that
  \<open>streamImport\<close> tests for \<open>undefined\<close> or \<open>null\<close> are options; the fields of a
  parsed member are as their type declares them.
\<close>

datatype jsnum = NaN | Num int

record ParsedMeta =
  pmeta_name :: string
  pmeta_platform :: string
  pmeta_type :: string

record ParsedMember =
  platformId :: string
  name :: string
  pm_nickname :: "string option"

record ParsedMessage =
  senderPlatformId :: "string option"
  senderName :: "string option"
  timestamp :: "jsnum option"
  msgType :: "int option"
  content :: "string option"

text \<open>
  The callbacks that \<open>streamParseFile\<close> invokes, in order; the parser then completes
  or rejects with an error. The parser is not part of these sources: a run of it is a
  parameter.
\<close>

datatype parse_event =
    OnProgress string
  | OnMeta ParsedMeta
  | OnMembers "ParsedMember list"
  | OnMessageBatch "ParsedMessage list"

type_synonym parse_run = "parse_event list \<times> string option"

subsection \<open>The environment of an import\<close>

text \<open>
  \<open>detectFormat\<close> gives the name and the platform of the format;
  \<open>has_preprocessor\<close> is whether \<open>getPreprocessor\<close> returns one (these sources hold
  one, \<open>qqPreprocessor\<close>) and \<open>needsPreprocess\<close> is the function of that name;
  \<open>preprocess_events\<close> is what the streams do if preprocessing runs;
  \<open>streamParseFile\<close> is the run of the parser on a file with a batch size;
  \<open>sessionId\<close> is what \<open>generateSessionId\<close> returns; \<open>fault\<close> gives the
  exception, if any, with which the \<open>n\<close>-th statement executed inside the \<open>try\<close> block
  throws; \<open>now\<close> is the clock in seconds; \<open>statSync\<close> is the size of a file or the
  error of \<open>fs.statSync\<close>.

  An exception that reaches the \<open>catch\<close> block of \<open>streamImport\<close> is its message
  and whether the transaction has ended with it. An exception of the parser or of a
  callback's own code leaves the transaction open, and so does a statement that fails
  on a constraint; after an error such as \<open>SQLITE_FULL\<close>, \<open>SQLITE_IOERR\<close> or
  \<open>SQLITE_NOMEM\<close> SQLite may have rolled the whole transaction back by itself.
\<close>

datatype exn = Exn (exn_message: string) (txn_ended: bool)

record env = pp_env +
  detectFormat :: "path \<Rightarrow> (string \<times> string) option"
  has_preprocessor :: "path \<Rightarrow> bool"
  needsPreprocess :: "path \<Rightarrow> bool"
  preprocess_events :: "pp_event list"
  streamParseFile :: "path \<Rightarrow> nat \<Rightarrow> parse_run"
  sessionId :: string
  dbDir :: path
  fault :: "nat \<Rightarrow> exn option"
  now :: int
  statSync :: "path \<Rightarrow> string + nat"

definition getDbPath :: "env \<Rightarrow> path" where
  "getDbPath env = path_join (dbDir env) (sessionId env @ ''.db'')"

subsection \<open>The state of one import\<close>

text \<open>
  The variables that the callbacks of \<open>streamImport\<close> close over: the tables as the
  open transaction sees them, the number of statements executed so far,
  \<open>memberIdMap\<close>, \<open>nicknameTracker\<close> (a \<open>Map\<close> that is iterated at the end, hence an
  association list; its values are \<open>currentName\<close> and \<open>lastSeenTs\<close>),
  \<open>metaInserted\<close>, the warnings written to the console and the progress messages
  forwarded to the controlling side.
\<close>

record import_state =
  db :: tables
  stmts :: nat
  memberIdMap :: "string \<Rightarrow> nat option"
  nicknameTracker :: "(string \<times> string \<times> int) list"
  metaInserted :: bool
  warnings :: "string list"
  forwarded :: "string list"

text \<open>Sequencing: an exception of the first step skips the rest.\<close>

definition bindE :: "'e + 's \<Rightarrow> ('s \<Rightarrow> 'e + 't) \<Rightarrow> 'e + 't" where
  "bindE r k = (case r of Inl err \<Rightarrow> Inl err | Inr v \<Rightarrow> k v)"

text \<open>
  Executing a prepared statement (or \<open>db.exec\<close>) inside the \<open>try\<close> block: it throws
  if the environment says so, otherwise it applies its effect on the tables.
\<close>

definition exec :: "env \<Rightarrow> (tables \<Rightarrow> tables) \<Rightarrow> import_state \<Rightarrow> exn + import_state" where
  "exec env f st =
     (case fault env (stmts st) of
        Some e \<Rightarrow> Inl e
      | None \<Rightarrow> Inr (st\<lparr> stmts := Suc (stmts st), db := f (db st) \<rparr>))"

subsection \<open>The prepared statements\<close>

definition insertMeta_sql :: "ParsedMeta \<Rightarrow> int \<Rightarrow> tables \<Rightarrow> tables" where
  "insertMeta_sql m t_now t =
     t\<lparr> meta := meta t @ [\<lparr> meta_name = pmeta_name m, meta_platform = pmeta_platform m,
                            meta_type = pmeta_type m, imported_at = t_now \<rparr>] \<rparr>"

text \<open>
  \<open>INSERT OR IGNORE INTO member\<close>: the statement generates the next id, and then
  \<open>platform_id\<close> is \<open>UNIQUE\<close>: a row that would repeat one is skipped, its id is
  not used again.
\<close>

definition insertMember_sql :: "string \<Rightarrow> string \<Rightarrow> string option \<Rightarrow> tables \<Rightarrow> tables" where
  "insertMember_sql pid nm nick t =
     (if pid \<in> set (map platform_id (member t))
      then t\<lparr> member_seq := Suc (member_seq t) \<rparr>
      else t\<lparr> member_seq := Suc (member_seq t),
              member := member t @
                 [\<lparr> member_id = Suc (member_seq t), platform_id = pid,
                    member_name = nm, nickname = nick \<rparr>] \<rparr>)"

text \<open>\<open>SELECT id FROM member WHERE platform_id = ?\<close>, first row.\<close>

definition getMemberId_sql :: "string \<Rightarrow> tables \<Rightarrow> nat option" where
  "getMemberId_sql pid t =
     map_option member_id (find (\<lambda>r. platform_id r = pid) (member t))"

definition insertMessage_sql :: "nat \<Rightarrow> int \<Rightarrow> int \<Rightarrow> string option \<Rightarrow> tables \<Rightarrow> tables" where
  "insertMessage_sql sid t_msg ty c t =
     t\<lparr> message := message t @
          [\<lparr> msg_id = Suc (length (message t)), sender_id = sid, ts = t_msg,
             msg_type = ty, msg_content = c \<rparr>] \<rparr>"

definition insertNameHistory_sql :: "nat \<Rightarrow> string \<Rightarrow> int \<Rightarrow> int option \<Rightarrow> tables \<Rightarrow> tables" where
  "insertNameHistory_sql mid nm t_start t_end t =
     t\<lparr> member_name_history := member_name_history t @
          [\<lparr> nh_id = Suc (length (member_name_history t)), nh_member_id = mid,
             nh_name = nm, start_ts = t_start, end_ts = t_end \<rparr>] \<rparr>"

definition updateMemberName_sql :: "string \<Rightarrow> string \<Rightarrow> tables \<Rightarrow> tables" where
  "updateMemberName_sql nm pid t =
     t\<lparr> member := map (\<lambda>r. if platform_id r = pid then r\<lparr> member_name := nm \<rparr> else r)
                      (member t) \<rparr>"

text \<open>\<open>UPDATE member_name_history SET end_ts = ? WHERE member_id = ? AND end_ts IS NULL\<close>.\<close>

definition close_interval :: "int \<Rightarrow> nat \<Rightarrow> name_history_row \<Rightarrow> name_history_row" where
  "close_interval t_end mid r =
     (if nh_member_id r = mid \<and> end_ts r = None then r\<lparr> end_ts := Some t_end \<rparr> else r)"

definition updateNameHistoryEndTs_sql :: "int \<Rightarrow> nat \<Rightarrow> tables \<Rightarrow> tables" where
  "updateNameHistoryEndTs_sql t_end mid t =
     t\<lparr> member_name_history := map (close_interval t_end mid) (member_name_history t) \<rparr>"

subsection \<open>The callbacks\<close>

definition onMeta :: "env \<Rightarrow> ParsedMeta \<Rightarrow> import_state \<Rightarrow> exn + import_state" where
  "onMeta env m st =
     (if \<not> metaInserted st
      then bindE (exec env (insertMeta_sql m (now env)) st)
             (\<lambda>st. Inr (st\<lparr> metaInserted := True \<rparr>))
      else Inr st)"

text \<open>
  \<open>insertMember.run\<close>, \<open>getMemberId.get\<close> and, if there is a row,
  \<open>memberIdMap.set\<close>: the three lines that \<open>onMembers\<close> and \<open>onMessageBatch\<close> share.
\<close>

definition ensure_member ::
    "env \<Rightarrow> string \<Rightarrow> string \<Rightarrow> string option \<Rightarrow> import_state \<Rightarrow> exn + import_state" where
  "ensure_member env pid nm nick st =
     bindE (exec env (insertMember_sql pid nm nick) st) (\<lambda>st.
     bindE (exec env id st) (\<lambda>st.
       case getMemberId_sql pid (db st) of
         Some i \<Rightarrow> Inr (st\<lparr> memberIdMap := (memberIdMap st)(pid \<mapsto> i) \<rparr>)
       | None \<Rightarrow> Inr st))"

text \<open>\<open>s || null\<close> on an optional string: a missing or empty one is \<open>null\<close>.\<close>

definition or_null :: "string option \<Rightarrow> string option" where
  "or_null s = (case s of None \<Rightarrow> None | Some v \<Rightarrow> if v = [] then None else Some v)"

fun onMembers :: "env \<Rightarrow> ParsedMember list \<Rightarrow> import_state \<Rightarrow> exn + import_state" where
  "onMembers env [] st = Inr st"
| "onMembers env (m # ms) st =
     bindE (ensure_member env (platformId m) (name m) (or_null (pm_nickname m)) st)
       (onMembers env ms)"

text \<open>
  The three checks at the head of the loop over a batch, in their order; the result is
  the warning logged, or the fields of a message that passed. \<open>!s\<close> holds of a string
  that is missing or empty.
\<close>

definition falsy :: "string option \<Rightarrow> bool" where
  "falsy s = (case s of None \<Rightarrow> True | Some v \<Rightarrow> v = [])"

definition check_message :: "ParsedMessage \<Rightarrow> string + (string \<times> string \<times> int \<times> int)" where
  "check_message msg =
     (if falsy (senderPlatformId msg) \<or> falsy (senderName msg)
      then Inl ''skipping invalid message: no sender''
      else case timestamp msg of
             None \<Rightarrow> Inl ''skipping invalid message: no timestamp''
           | Some NaN \<Rightarrow> Inl ''skipping invalid message: no timestamp''
           | Some (Num t) \<Rightarrow>
               (case msgType msg of
                  None \<Rightarrow> Inl ''skipping invalid message: no type''
                | Some ty \<Rightarrow>
                    Inr (case senderPlatformId msg of Some p \<Rightarrow> p | None \<Rightarrow> [],
                         case senderName msg of Some n \<Rightarrow> n | None \<Rightarrow> [], t, ty)))"

text \<open>\<open>a || b\<close> on strings.\<close>

definition or_else :: "string \<Rightarrow> string \<Rightarrow> string" where
  "or_else a b = (if a = [] then b else a)"

text \<open>The part of the loop body that tracks the nickname, after the message row is in.\<close>

definition track_nickname ::
    "env \<Rightarrow> string \<Rightarrow> nat \<Rightarrow> string \<Rightarrow> int \<Rightarrow> import_state \<Rightarrow> exn + import_state" where
  "track_nickname env pid senderId nm t st =
     (case map_of (nicknameTracker st) pid of
        None \<Rightarrow>
          exec env (insertNameHistory_sql senderId nm t None)
            (st\<lparr> nicknameTracker := AList.update pid (nm, t) (nicknameTracker st) \<rparr>)
      | Some (currentName, lastSeenTs) \<Rightarrow>
          if currentName \<noteq> nm
          then bindE (exec env (updateNameHistoryEndTs_sql t senderId) st) (\<lambda>st.
               bindE (exec env (insertNameHistory_sql senderId nm t None) st) (\<lambda>st.
                 Inr (st\<lparr> nicknameTracker := AList.update pid (nm, t) (nicknameTracker st) \<rparr>)))
          else Inr (st\<lparr> nicknameTracker :=
                        AList.update pid (currentName, t) (nicknameTracker st) \<rparr>))"

text \<open>One pass through the body of the loop of \<open>onMessageBatch\<close>.\<close>

definition import_message :: "env \<Rightarrow> ParsedMessage \<Rightarrow> import_state \<Rightarrow> exn + import_state" where
  "import_message env msg st =
     (case check_message msg of
        Inl w \<Rightarrow> Inr (st\<lparr> warnings := warnings st @ [w] \<rparr>)
      | Inr (pid, nm, t, ty) \<Rightarrow>
          bindE (if memberIdMap st pid = None
                 then ensure_member env pid (or_else nm pid) None st
                 else Inr st) (\<lambda>st.
            case memberIdMap st pid of
              None \<Rightarrow> Inr st
            | Some senderId \<Rightarrow>
                bindE (exec env (insertMessage_sql senderId t ty (content msg)) st)
                  (track_nickname env pid senderId (or_else nm pid) t)))"

fun onMessageBatch :: "env \<Rightarrow> ParsedMessage list \<Rightarrow> import_state \<Rightarrow> exn + import_state" where
  "onMessageBatch env [] st = Inr st"
| "onMessageBatch env (msg # msgs) st =
     bindE (import_message env msg st) (onMessageBatch env msgs)"

fun callback :: "env \<Rightarrow> parse_event \<Rightarrow> import_state \<Rightarrow> exn + import_state" where
  "callback env (OnProgress p) st = Inr (st\<lparr> forwarded := forwarded st @ [p] \<rparr>)"
| "callback env (OnMeta m) st = onMeta env m st"
| "callback env (OnMembers ms) st = onMembers env ms st"
| "callback env (OnMessageBatch msgs) st = onMessageBatch env msgs st"

fun callbacks :: "env \<Rightarrow> parse_event list \<Rightarrow> import_state \<Rightarrow> exn + import_state" where
  "callbacks env [] st = Inr st"
| "callbacks env (e # es) st = bindE (callback env e st) (callbacks env es)"

text \<open>The loop after the parse that writes each tracked sender's last name.\<close>

fun update_member_names ::
    "env \<Rightarrow> (string \<times> string \<times> int) list \<Rightarrow> import_state \<Rightarrow> exn + import_state" where
  "update_member_names env [] st = Inr st"
| "update_member_names env ((pid, currentName, lastSeenTs) # rest) st =
     bindE (exec env (updateMemberName_sql currentName pid) st) (update_member_names env rest)"

text \<open>
  The \<open>try\<close> block: the parse with its callbacks, the error of the parser if it
  rejects, the loop over the tracker and \<open>COMMIT\<close>. Its value is the exception that
  reaches the \<open>catch\<close>, or the state that was committed.
\<close>

definition start_state :: "tables \<Rightarrow> import_state" where
  "start_state t =
     \<lparr> db = t, stmts = 0, memberIdMap = Map.empty, nicknameTracker = [],
       metaInserted = False, warnings = [], forwarded = [] \<rparr>"

definition try_block :: "env \<Rightarrow> parse_run \<Rightarrow> tables \<Rightarrow> exn + import_state" where
  "try_block env parse t =
     bindE (callbacks env (fst parse) (start_state t)) (\<lambda>st.
       case snd parse of
         Some e \<Rightarrow> Inl (Exn e False)
       | None \<Rightarrow>
           bindE (update_member_names env (nicknameTracker st) st) (exec env id))"

subsection \<open>streamImport\<close>

record StreamImportResult =
  success :: bool
  res_sessionId :: "string option"
  res_error :: "string option"

text \<open>
  How a call ends: it returns a value, its promise rejects with an exception, or it
  never resumes (the promise it awaits stays pending, or an uncaught exception has
  ended the worker).
\<close>

datatype 'a completion = Returns 'a | Throws string | Never

text \<open>
  \<open>createDatabase\<close>: \<open>new Database(dbPath)\<close>, the switch to the write-ahead log and
  the schema. The result is a new file with empty tables, or the tables of the database
  that the file already holds (\<open>CREATE TABLE IF NOT EXISTS\<close>). With
  \<open>journal_mode = WAL\<close> the first write creates two more files beside the database,
  \<open><dbPath>-wal\<close> and \<open><dbPath>-shm\<close>, which stay as long as the connection is open.
\<close>

definition wal_path :: "path \<Rightarrow> path" where
  "wal_path p = p @ ''-wal''"

definition shm_path :: "path \<Rightarrow> path" where
  "shm_path p = p @ ''-shm''"

definition createDatabase :: "env \<Rightarrow> filesystem \<Rightarrow> string + (filesystem \<times> tables)" where
  "createDatabase env fs =
     (case fs (getDbPath env) of
        None \<Rightarrow>
          Inr (fs(getDbPath env \<mapsto> Db empty_tables,
                  wal_path (getDbPath env) \<mapsto> Data,
                  shm_path (getDbPath env) \<mapsto> Data), empty_tables)
      | Some (Db t) \<Rightarrow>
          Inr (fs(wal_path (getDbPath env) \<mapsto> Data, shm_path (getDbPath env) \<mapsto> Data), t)
      | Some Data \<Rightarrow> Inl ''file is not a database'')"

text \<open>
  \<open>db.close()\<close>: when its last connection closes, SQLite moves the log into the
  database file and deletes \<open>-wal\<close> and \<open>-shm\<close>, unless the database file is no longer
  at its path; then it leaves both where they are.
\<close>

definition db_close :: "env \<Rightarrow> filesystem \<Rightarrow> filesystem" where
  "db_close env fs =
     (if existsSync (getDbPath env) fs
      then fs(wal_path (getDbPath env) := None, shm_path (getDbPath env) := None)
      else fs)"

text \<open>The \<open>finally\<close> block: \<open>db.close()\<close>, then the cleanup of the temporary file if
  there is one. An exception here would replace the value being returned.\<close>

definition finally_block ::
    "env \<Rightarrow> path option \<Rightarrow> StreamImportResult \<Rightarrow> filesystem \<Rightarrow>
     StreamImportResult completion \<times> filesystem" where
  "finally_block env tempFilePath r fs =
     (case tempFilePath of
        None \<Rightarrow> (Returns r, db_close env fs)
      | Some tmp \<Rightarrow>
          (case cleanupTempFile env tmp (db_close env fs) of
             Inl e \<Rightarrow> (Throws e, db_close env fs)
           | Inr fs' \<Rightarrow> (Returns r, fs')))"

text \<open>
  The \<open>catch\<close> block: \<open>db.exec('ROLLBACK')\<close>, which throws when no transaction is
  active any more; then the database file is removed if it exists, which may throw as
  well; then the failure is the value to return. The connection is still open here:
  it is closed in \<open>finally\<close>.
\<close>

definition catch_block ::
    "env \<Rightarrow> exn \<Rightarrow> filesystem \<Rightarrow> string + (StreamImportResult \<times> filesystem)" where
  "catch_block env x fs =
     (if txn_ended x then Inl ''cannot rollback - no transaction is active''
      else case (if existsSync (getDbPath env) fs
                 then unlinkSync env (getDbPath env) fs else Inr fs) of
             Inl e \<Rightarrow> Inl e
           | Inr fs' \<Rightarrow>
               Inr (\<lparr> success = False, res_sessionId = None,
                      res_error = Some (exn_message x) \<rparr>, fs'))"

text \<open>
  From \<open>generateSessionId\<close> to the end: the store is created and the transaction runs.
  On success the tables of the transaction are those of the database. On an exception
  the \<open>catch\<close> block runs; an exception of the \<open>catch\<close> block itself leaves through
  \<open>finally\<close> and is what \<open>streamImport\<close> throws.
\<close>

definition import_into_store ::
    "env \<Rightarrow> path \<Rightarrow> path option \<Rightarrow> filesystem \<Rightarrow>
     StreamImportResult completion \<times> filesystem" where
  "import_into_store env actualFilePath tempFilePath fs =
     (case createDatabase env fs of
        Inl e \<Rightarrow> (Throws e, fs)
      | Inr (fs1, t0) \<Rightarrow>
          (case try_block env (streamParseFile env actualFilePath 5000) t0 of
             Inr st \<Rightarrow>
               finally_block env tempFilePath
                 \<lparr> success = True, res_sessionId = Some (sessionId env), res_error = None \<rparr>
                 (fs1(getDbPath env \<mapsto> Db (db st)))
           | Inl x \<Rightarrow>
               (case catch_block env x fs1 of
                  Inr (r, fs2) \<Rightarrow> finally_block env tempFilePath r fs2
                | Inl e \<Rightarrow>
                    (case finally_block env tempFilePath
                            \<lparr> success = False, res_sessionId = None, res_error = None \<rparr> fs1 of
                       (Throws e', fs2) \<Rightarrow> (Throws e', fs2)
                     | (c, fs2) \<Rightarrow> (Throws e, fs2)))))"

text \<open>
  The preprocessing step of \<open>streamImport\<close>: it runs if the format has a preprocessor
  and the file needs it. Its promise fulfils with the path of the slimmed file, which
  is then the file to parse and the temporary file to clean up; if it rejects,
  \<open>streamImport\<close> returns the failure; if it never settles, \<open>streamImport\<close> never
  resumes. The error texts are the source's, translated.
\<close>

datatype preparation =
    Ready path "path option" filesystem
  | Stopped "StreamImportResult completion" filesystem

definition prepare :: "env \<Rightarrow> path \<Rightarrow> filesystem \<Rightarrow> preparation" where
  "prepare env filePath fs =
     (if has_preprocessor env filePath \<and> needsPreprocess env filePath
      then (let pp = preprocessQQJson env filePath (preprocess_events env) fs
            in if uncaught pp \<noteq> None then Stopped Never (pp_fs pp)
               else case promise pp of
                      Pending \<Rightarrow> Stopped Never (pp_fs pp)
                    | Rejected e \<Rightarrow>
                        Stopped
                          (Returns \<lparr> success = False, res_sessionId = None,
                                     res_error = Some (''preprocessing failed: '' @ e) \<rparr>)
                          (pp_fs pp)
                    | Fulfilled tempFilePath \<Rightarrow>
                        Ready tempFilePath (Some tempFilePath) (pp_fs pp))
      else Ready filePath None fs)"

definition streamImport ::
    "env \<Rightarrow> path \<Rightarrow> filesystem \<Rightarrow> StreamImportResult completion \<times> filesystem" where
  "streamImport env filePath fs =
     (case detectFormat env filePath of
        None \<Rightarrow>
          (Returns \<lparr> success = False, res_sessionId = None,
                     res_error = Some ''unrecognized file format'' \<rparr>, fs)
      | Some formatFeature \<Rightarrow>
          (case prepare env filePath fs of
             Stopped c fs1 \<Rightarrow> (c, fs1)
           | Ready actualFilePath tempFilePath fs1 \<Rightarrow>
               import_into_store env actualFilePath tempFilePath fs1))"

subsection \<open>streamParseFileInfo\<close>

record FileInfo =
  info_name :: string
  info_format :: string
  info_platform :: string
  messageCount :: nat
  memberCount :: nat
  fileSize :: nat

text \<open>
  The variables of the preview: \<open>name\<close>, \<open>platform\<close>, \<open>messageCount\<close> and
  \<open>memberSet\<close>, a \<open>Set\<close> that receives the sender id of every message as it is, missing
  or not.
\<close>

record info_state =
  i_name :: string
  i_platform :: string
  i_messageCount :: nat
  i_memberSet :: "string option list"

fun info_callback :: "parse_event \<Rightarrow> info_state \<Rightarrow> info_state" where
  "info_callback (OnProgress p) s = s"
| "info_callback (OnMeta m) s = s\<lparr> i_name := pmeta_name m, i_platform := pmeta_platform m \<rparr>"
| "info_callback (OnMembers ms) s =
     s\<lparr> i_memberSet := fold (\<lambda>m. List.insert (Some (platformId m))) ms (i_memberSet s) \<rparr>"
| "info_callback (OnMessageBatch msgs) s =
     s\<lparr> i_messageCount := i_messageCount s + length msgs,
        i_memberSet := fold (\<lambda>msg. List.insert (senderPlatformId msg)) msgs (i_memberSet s) \<rparr>"

definition streamParseFileInfo :: "env \<Rightarrow> path \<Rightarrow> FileInfo completion" where
  "streamParseFileInfo env filePath =
     (case detectFormat env filePath of
        None \<Rightarrow> Throws ''unrecognized file format''
      | Some (format_name, format_platform) \<Rightarrow>
          (case statSync env filePath of
             Inl e \<Rightarrow> Throws e
           | Inr size_of_file \<Rightarrow>
               (case streamParseFile env filePath
                       (if size_of_file > 100 * 1024 * 1024 then 2000 else 5000) of
                  (events, Some e) \<Rightarrow> Throws e
                | (events, None) \<Rightarrow>
                    (let s = fold info_callback events
                               \<lparr> i_name = ''unknown group'', i_platform = format_platform,
                                 i_messageCount = 0, i_memberSet = [] \<rparr>
                     in Returns \<lparr> info_name = i_name s, info_format = format_name,
                                   info_platform = i_platform s,
                                   messageCount = i_messageCount s,
                                   memberCount = length (i_memberSet s),
                                   fileSize = size_of_file \<rparr>))))"

subsection \<open>Invariants of the import state\<close>

text \<open>
  The member table holds each platform id once and each id once, no id is larger than
  the sequence, and \<open>memberIdMap\<close> maps a platform id to the id of its row.
\<close>

definition members_ok :: "import_state \<Rightarrow> bool" where
  "members_ok st =
     (distinct (map platform_id (member (db st))) \<and>
      distinct (map member_id (member (db st))) \<and>
      (\<forall>r\<in>set (member (db st)). member_id r \<le> member_seq (db st)) \<and>
      (\<forall>p i. memberIdMap st p = Some i \<longrightarrow> getMemberId_sql p (db st) = Some i))"

text \<open>
  The messages of a run in file order, whatever the batches; a message passes the checks
  of the loop or is dropped by them. \<open>js_invalid\<close> spells the checks out;
  \<open>spec_invalid\<close> is the condition as the specification words it, where only a
  missing sender id, not an empty one, makes a message invalid.
\<close>

fun all_messages :: "parse_event list \<Rightarrow> ParsedMessage list" where
  "all_messages [] = []"
| "all_messages (OnMessageBatch msgs # es) = msgs @ all_messages es"
| "all_messages (e # es) = all_messages es"

definition valid_message :: "ParsedMessage \<Rightarrow> bool" where
  "valid_message msg = (case check_message msg of Inl w \<Rightarrow> False | Inr x \<Rightarrow> True)"

definition js_invalid :: "ParsedMessage \<Rightarrow> bool" where
  "js_invalid msg =
     (senderPlatformId msg = None \<or> senderPlatformId msg = Some [] \<or>
      senderName msg = None \<or> senderName msg = Some [] \<or>
      timestamp msg = None \<or> timestamp msg = Some NaN \<or>
      msgType msg = None)"

definition spec_invalid :: "ParsedMessage \<Rightarrow> bool" where
  "spec_invalid msg =
     (senderPlatformId msg = None \<or>
      senderName msg = None \<or> senderName msg = Some [] \<or>
      timestamp msg = None \<or> timestamp msg = Some NaN \<or>
      msgType msg = None)"

definition sender_of :: "ParsedMessage \<Rightarrow> string" where
  "sender_of msg = (case senderPlatformId msg of Some p \<Rightarrow> p | None \<Rightarrow> [])"

text \<open>
  The history rows of one member, in the order of their insertion, and what it means
  for a list of intervals to be contiguous: each ends where the next starts and the
  last is open.
\<close>

definition rows_of :: "nat \<Rightarrow> tables \<Rightarrow> name_history_row list" where
  "rows_of i t = filter (\<lambda>r. nh_member_id r = i) (member_name_history t)"

fun contiguous :: "name_history_row list \<Rightarrow> bool" where
  "contiguous [] = True"
| "contiguous [r] = (end_ts r = None)"
| "contiguous (r # r' # rs) = (end_ts r = Some (start_ts r') \<and> contiguous (r' # rs))"

definition open_rows :: "name_history_row list \<Rightarrow> name_history_row list" where
  "open_rows rs = filter (\<lambda>r. end_ts r = None) rs"

text \<open>
  Every history row belongs to a tracked sender; the rows of a tracked sender are not
  empty, contiguous in insertion order, and the last carries the tracked name.
\<close>

definition tracked :: "import_state \<Rightarrow> string \<Rightarrow> bool" where
  "tracked st p = (map_of (nicknameTracker st) p \<noteq> None)"

definition history_ok :: "import_state \<Rightarrow> bool" where
  "history_ok st =
     ((\<forall>p. tracked st p \<longrightarrow> memberIdMap st p \<noteq> None) \<and>
      (\<forall>i. (\<forall>p. tracked st p \<longrightarrow> memberIdMap st p \<noteq> Some i) \<longrightarrow> rows_of i (db st) = []) \<and>
      (\<forall>p cur seen i. map_of (nicknameTracker st) p = Some (cur, seen) \<longrightarrow>
           memberIdMap st p = Some i \<longrightarrow>
           rows_of i (db st) \<noteq> [] \<and> contiguous (rows_of i (db st)) \<and>
           nh_name (last (rows_of i (db st))) = cur))"

text \<open>
  The observations of one sender: the name and the timestamp of each of its messages
  that pass the checks, in file order.
\<close>

definition name_of :: "ParsedMessage \<Rightarrow> string" where
  "name_of msg = (case senderName msg of Some n \<Rightarrow> n | None \<Rightarrow> [])"

definition ts_of :: "ParsedMessage \<Rightarrow> int" where
  "ts_of msg = (case timestamp msg of Some (Num t) \<Rightarrow> t | _ \<Rightarrow> 0)"

definition observed :: "string \<Rightarrow> ParsedMessage list \<Rightarrow> (string \<times> int) list" where
  "observed p msgs =
     map (\<lambda>m. (name_of m, ts_of m)) (filter (\<lambda>m. valid_message m \<and> sender_of m = p) msgs)"

text \<open>
  The history that the specification describes for the observations of one member, as
  intervals of a name, a start and an end. The first observation opens an interval
  with its name at its timestamp. An observation with the name of the open interval
  writes nothing. An observation with another name closes the open interval at its
  timestamp and opens a new interval with the new name there.
\<close>

type_synonym interval = "string \<times> int \<times> int option"

definition observe :: "interval list \<Rightarrow> string \<times> int \<Rightarrow> interval list" where
  "observe ivs ob =
     (if ivs = [] then [(fst ob, snd ob, None)]
      else if fst (last ivs) = fst ob then ivs
      else butlast ivs @
             [(fst (last ivs), fst (snd (last ivs)), Some (snd ob)), (fst ob, snd ob, None)])"

definition spec_history :: "(string \<times> int) list \<Rightarrow> interval list" where
  "spec_history obs = foldl observe [] obs"

definition interval_of :: "name_history_row \<Rightarrow> interval" where
  "interval_of r = (nh_name r, start_ts r, end_ts r)"

text \<open>
  After the messages \<open>msgs\<close>, the tracked senders are those with an observation, and
  the rows of each are the history of its observations.
\<close>

definition history_matches :: "import_state \<Rightarrow> ParsedMessage list \<Rightarrow> bool" where
  "history_matches st msgs =
     (\<forall>p. tracked st p = (observed p msgs \<noteq> []) \<and>
          (\<forall>i. tracked st p \<longrightarrow> memberIdMap st p = Some i \<longrightarrow>
               map interval_of (rows_of i (db st)) = spec_history (observed p msgs)))"

text \<open>
  The platform ids that a run refers to: those of the member lists and those of the
  senders of the messages that pass the checks.
\<close>

fun referenced_ids :: "parse_event list \<Rightarrow> string set" where
  "referenced_ids [] = {}"
| "referenced_ids (OnMembers ms # es) = set (map platformId ms) \<union> referenced_ids es"
| "referenced_ids (OnMessageBatch msgs # es) =
     set (map sender_of (filter valid_message msgs)) \<union> referenced_ids es"
| "referenced_ids (e # es) = referenced_ids es"

text \<open>The value that \<open>streamImport\<close> returns after a commit.\<close>

definition committed :: "env \<Rightarrow> StreamImportResult" where
  "committed env =
     \<lparr> success = True, res_sessionId = Some (sessionId env), res_error = None \<rparr>"

definition failed :: "string \<Rightarrow> StreamImportResult" where
  "failed e = \<lparr> success = False, res_sessionId = None, res_error = Some e \<rparr>"

text \<open>No statement of the transaction fails.\<close>

definition no_faults :: "env \<Rightarrow> bool" where
  "no_faults env = (\<forall>n. fault env n = None)"

subsection \<open>Concrete runs, for the examples\<close>

definition no_fault :: "nat \<Rightarrow> exn option" where
  "no_fault n = None"

definition fault_at :: "nat \<Rightarrow> exn \<Rightarrow> nat \<Rightarrow> exn option" where
  "fault_at k x n = (if n = k then Some x else None)"

definition ex_msg :: "string \<Rightarrow> string \<Rightarrow> int \<Rightarrow> ParsedMessage" where
  "ex_msg pid nm t =
     \<lparr> senderPlatformId = Some pid, senderName = Some nm, timestamp = Some (Num t),
       msgType = Some 0, content = Some ''hi'' \<rparr>"

text \<open>
  An environment in which \<open>/in/chat.json\<close> is of a known format without need of
  preprocessing, the parser delivers the given run whatever the batch size, and the
  statements fail as the given oracle says.
\<close>

definition ex_env :: "parse_run \<Rightarrow> (nat \<Rightarrow> exn option) \<Rightarrow> env" where
  "ex_env parse flt =
     \<lparr> tmpdir = ''/tmp'', unlink_error = no_unlink_error,
       getFileSize = (\<lambda>p. Inr 10), outputFilename = (\<lambda>p. ''slim_0_chat.json''),
       headerJson = (\<lambda>h. ''{messages:[''),
       detectFormat = (\<lambda>p. Some (''chatlab'', ''qq'')),
       has_preprocessor = (\<lambda>p. False), needsPreprocess = (\<lambda>p. False),
       preprocess_events = [],
       streamParseFile = (\<lambda>p n. parse),
       sessionId = ''chat_1_abc'', dbDir = ''/db'', fault = flt, now = 1700000000,
       statSync = (\<lambda>p. Inr 10) \<rparr>"

definition ex_path :: path where
  "ex_path = ''/in/chat.json''"

text \<open>A run in which one sender changes name at an earlier timestamp, a run with a
  message whose sender id is present but empty, one with a message without a sender
  name and the same without that message, a run in which a sender changes name, keeps
  the new name and changes back, and a run whose member list repeats a platform id.\<close>

definition ex_rename_run :: parse_run where
  "ex_rename_run = ([OnMessageBatch [ex_msg ''p'' ''A'' 100, ex_msg ''p'' ''B'' 50]], None)"

definition ex_empty_id_run :: parse_run where
  "ex_empty_id_run = ([OnMessageBatch [ex_msg [] ''x'' 1]], None)"

definition ex_no_name_run :: parse_run where
  "ex_no_name_run = ([OnMessageBatch [ex_msg ''p'' [] 1, ex_msg ''p'' ''A'' 2]], None)"

definition ex_one_valid_run :: parse_run where
  "ex_one_valid_run = ([OnMessageBatch [ex_msg ''p'' ''A'' 2]], None)"

definition ex_names_run :: parse_run where
  "ex_names_run =
     ([OnMessageBatch [ex_msg ''p'' ''A'' 10, ex_msg ''q'' ''Q'' 15, ex_msg ''p'' ''B'' 20],
       OnMessageBatch [ex_msg ''p'' ''B'' 30, ex_msg ''p'' ''A'' 40]], None)"

definition ex_members_run :: parse_run where
  "ex_members_run =
     ([OnMembers [\<lparr> platformId = ''p'', name = ''A'', pm_nickname = None \<rparr>,
                  \<lparr> platformId = ''p'', name = ''A2'', pm_nickname = None \<rparr>],
       OnMessageBatch [ex_msg ''p'' ''A'' 1, ex_msg ''q'' ''Q'' 2, ex_msg ''p'' ''A'' 3]], None)"

text \<open>An operating system in which no file can be removed, and a temporary file.\<close>

definition always_locked :: "path \<Rightarrow> string option" where
  "always_locked p = Some ''EBUSY''"

definition ex_os_locked :: os_env where
  "ex_os_locked = \<lparr> tmpdir = ''/tmp'', unlink_error = always_locked \<rparr>"

definition ex_tmpfile :: path where
  "ex_tmpfile = ''/tmp/chatlab/slim_0_chat.json''"

definition ex_tmpfiles :: filesystem where
  "ex_tmpfiles = (\<lambda>p. if p = ex_tmpfile then Some Data else None)"

text \<open>
  The same environment for a file that needs preprocessing, with the events of the
  streams given; and two such lists of events: in the first the write stream reports
  an error (a full disk, say) after one message was written, in the second the pipeline
  reports a parse error at that point.
\<close>

definition ex_big_env :: "pp_event list \<Rightarrow> env" where
  "ex_big_env evs =
     (ex_env ([], None) no_fault)
       \<lparr> has_preprocessor := (\<lambda>p. True), needsPreprocess := (\<lambda>p. True),
         preprocess_events := evs \<rparr>"

definition ex_write_error :: "pp_event list" where
  "ex_write_error =
     [HeadData ''{chatInfo:{}}'', HeadClose, ReadData 12, PipelineData ''{m1}'',
      WriteError ''ENOSPC'', PipelineEnd, WriteFinish]"

definition ex_parse_error :: "pp_event list" where
  "ex_parse_error =
     [HeadData ''{chatInfo:{}}'', HeadClose, ReadData 12, PipelineData ''{m1}'',
      PipelineError ''Parser cannot parse input'']"

chapter \<open>Properties\<close>

section \<open>Worker coordination\<close>

subsection \<open>Invariants\<close>

lemma has_pending_delete [simp]:
  "has_pending j (delete_pending i s) = (j \<noteq> i \<and> has_pending j s)"
  by (simp add: has_pending_def delete_pending_def AList.delete_conv)

lemma has_pending_invoke [simp]: "has_pending j (invoke c s) = has_pending j s"
  by (simp add: has_pending_def invoke_def)

lemma settle_count_invoke [simp]:
  "settle_count j (invoke c s) = settle_count j s + (if settles j c then 1 else 0)"
  by (simp add: settle_count_def invoke_def)

lemma settle_count_delete [simp]: "settle_count j (delete_pending i s) = settle_count j s"
  by (simp add: settle_count_def delete_pending_def)

lemma counter_invoke [simp]: "requestIdCounter (invoke c s) = requestIdCounter s"
  by (simp add: invoke_def)

lemma counter_delete [simp]: "requestIdCounter (delete_pending i s) = requestIdCounter s"
  by (simp add: delete_pending_def)

lemma pending_invoke [simp]: "pendingRequests (invoke c s) = pendingRequests s"
  by (simp add: invoke_def)

lemma distinct_delete_pending:
  "distinct (map fst (pendingRequests s)) \<Longrightarrow>
   distinct (map fst (pendingRequests (delete_pending i s)))"
  by (simp add: delete_pending_def distinct_delete)

lemma mgr_inv_settle:
  assumes "mgr_inv s" and "has_pending i s" and "settles i c"
    and "\<forall>j. settles j c \<longrightarrow> j = i"
  shows "mgr_inv (invoke c (delete_pending i s))"
proof -
  have d: "distinct (map fst (pendingRequests (invoke c (delete_pending i s))))"
    using assms(1) by (simp add: mgr_inv_def distinct_delete_pending)
  have c0: "settle_count i s = 0" using assms(1,2) by (simp add: mgr_inv_def)
  have other: "\<And>j. j \<noteq> i \<Longrightarrow> \<not> settles j c" using assms(4) by blast
  have cnt: "\<And>j. settle_count j (invoke c (delete_pending i s)) =
      (if j = i then 1 else settle_count j s)"
    using c0 assms(3) other by simp
  show ?thesis
    unfolding mgr_inv_def
  proof (intro conjI allI impI)
    show "distinct (map fst (pendingRequests (invoke c (delete_pending i s))))" by (rule d)
  next
    fix j assume "has_pending j (invoke c (delete_pending i s))"
    then have "j \<noteq> i" "has_pending j s" by simp_all
    then show "j \<le> requestIdCounter (invoke c (delete_pending i s))"
      using assms(1) by (simp add: mgr_inv_def)
    show "settle_count j (invoke c (delete_pending i s)) = 0"
      using \<open>j \<noteq> i\<close> \<open>has_pending j s\<close> assms(1) other by (simp add: mgr_inv_def)
  next
    fix j
    have "settle_count j s \<le> 1" using assms(1) by (simp add: mgr_inv_def)
    then show "settle_count j (invoke c (delete_pending i s)) \<le> 1"
      unfolding cnt by simp
  next
    fix j assume "requestIdCounter (invoke c (delete_pending i s)) < j"
    then have "requestIdCounter s < j" by simp
    moreover have "i \<le> requestIdCounter s" using assms(1,2) by (simp add: mgr_inv_def)
    ultimately have "j \<noteq> i" "settle_count j s = 0"
      using assms(1) by (simp_all add: mgr_inv_def)
    then show "settle_count j (invoke c (delete_pending i s)) = 0"
      unfolding cnt by simp
  qed
qed


lemma mgr_inv_init: "mgr_inv init_manager"
  by (simp add: mgr_inv_def init_manager_def has_pending_def settle_count_def)

lemma mgr_inv_on_message: "mgr_inv s \<Longrightarrow> mgr_inv (on_message m s)"
proof -
  assume inv: "mgr_inv s"
  show ?thesis
  proof (cases "map_of (pendingRequests s) (m_id m)")
    case None
    then show ?thesis using inv by (simp add: on_message_def)
  next
    case (Some p)
    then have hp: "has_pending (m_id m) s" by (simp add: has_pending_def)
    show ?thesis
    proof (cases "m_type m = ''progress''")
      case True
      have "mgr_inv (invoke (ProgressCall (m_id m) (m_payload m)) s)"
        using inv by (simp add: mgr_inv_def)
      then show ?thesis using Some True inv by (simp add: on_message_def)
    next
      case False
      then show ?thesis
        using Some inv hp by (simp add: on_message_def mgr_inv_settle)
    qed
  qed
qed

lemma mgr_inv_on_timeout: "mgr_inv s \<Longrightarrow> mgr_inv (on_timeout i s)"
proof -
  assume inv: "mgr_inv s"
  have t: "\<And>ts. mgr_inv (s\<lparr>timers := ts\<rparr>)"
    using inv by (simp add: mgr_inv_def has_pending_def settle_count_def)
  show ?thesis
    by (cases "map_of (timers s) i")
       (simp_all add: on_timeout_def inv Let_def t mgr_inv_settle)
qed

lemma send_fields:
  assumes "worker s \<or> ok"
  shows "has_pending j (sendToWorkerWithProgress ty p ok s) =
           (j = Suc (requestIdCounter s) \<or> has_pending j s)"
    and "requestIdCounter (sendToWorkerWithProgress ty p ok s) = Suc (requestIdCounter s)"
    and "calls (sendToWorkerWithProgress ty p ok s) = calls s"
    and "map fst (pendingRequests (sendToWorkerWithProgress ty p ok s)) =
           (if has_pending (Suc (requestIdCounter s)) s then map fst (pendingRequests s)
            else map fst (pendingRequests s) @ [Suc (requestIdCounter s)])"
proof -
  show "has_pending j (sendToWorkerWithProgress ty p ok s) =
           (j = Suc (requestIdCounter s) \<or> has_pending j s)"
    using assms by (auto simp: sendToWorkerWithProgress_def Let_def has_pending_def update_conv')
  show "requestIdCounter (sendToWorkerWithProgress ty p ok s) = Suc (requestIdCounter s)"
    using assms by (auto simp: sendToWorkerWithProgress_def Let_def)
  show "calls (sendToWorkerWithProgress ty p ok s) = calls s"
    using assms by (auto simp: sendToWorkerWithProgress_def Let_def)
  have "has_pending (Suc (requestIdCounter s)) s =
          (Suc (requestIdCounter s) \<in> set (map fst (pendingRequests s)))"
    by (simp add: has_pending_def map_of_eq_None_iff)
  then show "map fst (pendingRequests (sendToWorkerWithProgress ty p ok s)) =
           (if has_pending (Suc (requestIdCounter s)) s then map fst (pendingRequests s)
            else map fst (pendingRequests s) @ [Suc (requestIdCounter s)])"
    using assms by (auto simp: sendToWorkerWithProgress_def Let_def update_keys)
qed

lemma mgr_inv_send: "mgr_inv s \<Longrightarrow> mgr_inv (sendToWorkerWithProgress ty p ok s)"
proof -
  assume inv: "mgr_inv s"
  show ?thesis
  proof (cases "\<not> worker s \<and> \<not> ok")
    case True
    have "mgr_inv (invoke (RejectCall None ''Worker not initialized'') s)"
      using inv by (simp add: mgr_inv_def)
    then show ?thesis using True by (simp add: sendToWorkerWithProgress_def)
  next
    case False
    then have ok: "worker s \<or> ok" by simp
    have fresh: "\<not> has_pending (Suc (requestIdCounter s)) s"
      using inv by (auto simp: mgr_inv_def)
    then have nk: "Suc (requestIdCounter s) \<notin> set (map fst (pendingRequests s))"
      by (simp add: has_pending_def map_of_eq_None_iff)
    have sc: "\<And>j. settle_count j (sendToWorkerWithProgress ty p ok s) = settle_count j s"
      by (simp add: settle_count_def send_fields(3)[OF ok])
    show ?thesis
      unfolding mgr_inv_def sc send_fields(1,2)[OF ok] send_fields(4)[OF ok]
      using inv fresh nk by (auto simp: mgr_inv_def)
  qed
qed

lemma reject_all_inv:
  "mgr_inv s \<Longrightarrow> distinct (map fst l) \<Longrightarrow> \<forall>i\<in>fst ` set l. has_pending i s \<Longrightarrow>
   mgr_inv (reject_all l s)"
proof (induction l arbitrary: s)
  case Nil
  then show ?case by simp
next
  case (Cons a l)
  obtain i p where a: "a = (i, p)" by (cases a)
  let ?s' = "delete_pending i (invoke (RejectCall (Some i) ''Worker exited unexpectedly'') s)"
  have hp: "has_pending i s" using Cons.prems(3) a by simp
  have "mgr_inv (invoke (RejectCall (Some i) ''Worker exited unexpectedly'') (delete_pending i s))"
    using Cons.prems(1) hp by (simp add: mgr_inv_settle)
  moreover have "?s' = invoke (RejectCall (Some i) ''Worker exited unexpectedly'') (delete_pending i s)"
    by (simp add: invoke_def delete_pending_def)
  ultimately have inv': "mgr_inv ?s'" by simp
  have d: "distinct (map fst l)" and ni: "i \<notin> fst ` set l"
    using Cons.prems(2) a by auto
  have "\<forall>j\<in>fst ` set l. has_pending j ?s'"
    using Cons.prems(3) ni by auto
  from Cons.IH[OF inv' d this] show ?case using a by simp
qed

lemma mgr_inv_on_exit: "mgr_inv s \<Longrightarrow> mgr_inv (on_exit s)"
proof -
  assume inv: "mgr_inv s"
  have w: "mgr_inv (s\<lparr>worker := False\<rparr>)"
    using inv by (simp add: mgr_inv_def has_pending_def settle_count_def)
  have "\<forall>i\<in>fst ` set (pendingRequests s). has_pending i (s\<lparr>worker := False\<rparr>)"
    using inv by (auto simp: has_pending_def mgr_inv_def weak_map_of_SomeI)
  moreover have "distinct (map fst (pendingRequests s))" using inv by (simp add: mgr_inv_def)
  ultimately show ?thesis using w by (simp add: on_exit_def reject_all_inv)
qed

lemma mgr_inv_handle: "mgr_inv s \<Longrightarrow> mgr_inv (handle e s)"
  by (cases e) (simp_all add: mgr_inv_send mgr_inv_on_message mgr_inv_on_timeout mgr_inv_on_exit)

lemma mgr_inv_run: "mgr_inv s \<Longrightarrow> mgr_inv (run es s)"
  by (induction es arbitrary: s) (simp_all add: mgr_inv_handle)

lemma reject_all_calls:
  "calls (reject_all l s) =
     calls s @ map (\<lambda>e. RejectCall (Some (fst e)) ''Worker exited unexpectedly'') l"
proof (induction l arbitrary: s)
  case Nil
  then show ?case by simp
next
  case (Cons a l)
  obtain i p where a: "a = (i, p)" by (cases a)
  show ?case unfolding a reject_all.simps Cons.IH
    by (simp add: invoke_def delete_pending_def)
qed

lemma reject_all_pending:
  "pendingRequests (reject_all l s) =
     filter (\<lambda>e. fst e \<notin> fst ` set l) (pendingRequests s)"
proof (induction l arbitrary: s)
  case Nil
  then show ?case by simp
next
  case (Cons a l)
  obtain i p where a: "a = (i, p)" by (cases a)
  have del: "\<And>xs. AList.delete i xs = filter (\<lambda>e. fst e \<noteq> i) (xs :: (req_id \<times> bool) list)"
    by (simp add: AList.delete_eq case_prod_unfold eq_commute)
  have "pendingRequests (reject_all (a # l) s) =
        filter (\<lambda>e. fst e \<notin> fst ` set l) (filter (\<lambda>e. fst e \<noteq> i) (pendingRequests s))"
    unfolding a reject_all.simps Cons.IH
    by (simp add: invoke_def delete_pending_def del)
  also have "\<dots> = filter (\<lambda>e. fst e \<notin> fst ` set (a # l)) (pendingRequests s)"
    unfolding a by (simp add: conj_commute)
  finally show ?case .
qed

lemma reject_all_other:
  "worker (reject_all l s) = worker s \<and> timers (reject_all l s) = timers s \<and>
   requestIdCounter (reject_all l s) = requestIdCounter s"
proof (induction l arbitrary: s)
  case Nil
  then show ?case by simp
next
  case (Cons a l)
  obtain i p where a: "a = (i, p)" by (cases a)
  show ?case unfolding a reject_all.simps
    by (simp add: Cons.IH invoke_def delete_pending_def)
qed

lemma calls_handle_ext: "\<exists>cs. calls (handle e s) = calls s @ cs"
proof (cases e)
  case (Send ty p ok)
  then show ?thesis by (simp add: sendToWorkerWithProgress_def invoke_def Let_def)
next
  case (WorkerMessage m)
  then show ?thesis
    by (simp add: on_message_def invoke_def delete_pending_def split: option.splits)
next
  case (TimerFires i)
  then show ?thesis
    by (simp add: on_timeout_def invoke_def delete_pending_def Let_def split: option.splits)
next
  case WorkerExit
  then show ?thesis by (simp add: on_exit_def reject_all_calls)
qed

lemma settle_count_handle_mono: "settle_count i s \<le> settle_count i (handle e s)"
proof -
  obtain cs where "calls (handle e s) = calls s @ cs" using calls_handle_ext by blast
  then show ?thesis by (simp add: settle_count_def)
qed

lemma settle_count_run_mono: "settle_count i s \<le> settle_count i (run es s)"
proof (induction es arbitrary: s)
  case Nil
  then show ?case by simp
next
  case (Cons e es)
  have "settle_count i s \<le> settle_count i (handle e s)" by (rule settle_count_handle_mono)
  also have "\<dots> \<le> settle_count i (run es (handle e s))" by (rule Cons.IH)
  finally show ?case by simp
qed

lemma timers_inv_handle: "timers_inv s \<Longrightarrow> timers_inv (handle e s)"
proof (cases e)
  case (Send ty p ok)
  assume "timers_inv s"
  then show ?thesis using Send
    by (auto simp: timers_inv_def sendToWorkerWithProgress_def invoke_def Let_def)
next
  case (WorkerMessage m)
  assume "timers_inv s"
  then show ?thesis using WorkerMessage
    by (auto simp: timers_inv_def on_message_def invoke_def delete_pending_def
        split: option.splits)
next
  case (TimerFires i)
  assume "timers_inv s"
  then show ?thesis using TimerFires
    by (auto simp: timers_inv_def on_timeout_def invoke_def delete_pending_def Let_def
        AList.delete_eq split: option.splits)
next
  case WorkerExit
  assume "timers_inv s"
  then show ?thesis using WorkerExit
    by (simp add: timers_inv_def on_exit_def reject_all_other)
qed

lemma timers_inv_run: "timers_inv s \<Longrightarrow> timers_inv (run es s)"
  by (induction es arbitrary: s) (simp_all add: timers_inv_handle)

lemma timers_inv_init: "timers_inv init_manager"
  by (simp add: timers_inv_def init_manager_def)

lemma keep_pending:
  assumes "\<not> terminal_for i e" and "has_pending i s"
  shows "has_pending i (handle e s)"
proof (cases e)
  case (Send ty p ok)
  then show ?thesis using assms(2)
    by (auto simp: sendToWorkerWithProgress_def Let_def has_pending_def update_conv' invoke_def)
next
  case (WorkerMessage m)
  then show ?thesis using assms
    by (auto simp: on_message_def split: option.splits)
next
  case (TimerFires j)
  then have "j \<noteq> i" using assms(1) by simp
  then show ?thesis using assms(2) TimerFires
    by (auto simp: on_timeout_def Let_def has_pending_def delete_pending_def invoke_def
        AList.delete_conv split: option.splits)
next
  case WorkerExit
  then show ?thesis using assms(1) by simp
qed

lemma keep_timer:
  assumes "\<not> terminal_for i e" and "map_of (timers s) i = Some ty"
  shows "map_of (timers (handle e s)) i = Some ty"
proof (cases e)
  case (Send ty' p ok)
  then show ?thesis using assms(2)
    by (auto simp: sendToWorkerWithProgress_def Let_def invoke_def map_add_Some_iff)
next
  case (WorkerMessage m)
  then show ?thesis using assms(2)
    by (auto simp: on_message_def invoke_def delete_pending_def split: option.splits)
next
  case (TimerFires j)
  then have "j \<noteq> i" using assms(1) by simp
  then show ?thesis using assms(2) TimerFires
    by (auto simp: on_timeout_def Let_def delete_pending_def invoke_def
        AList.delete_conv split: option.splits)
next
  case WorkerExit
  then show ?thesis using assms(1) by simp
qed

lemma keep_run:
  assumes "\<forall>e\<in>set es. \<not> terminal_for i e"
    and "has_pending i s" and "map_of (timers s) i = Some ty"
  shows "has_pending i (run es s) \<and> map_of (timers (run es s)) i = Some ty"
  using assms
proof (induction es arbitrary: s)
  case Nil
  then show ?case by simp
next
  case (Cons e es)
  have "has_pending i (handle e s)" using Cons.prems by (simp add: keep_pending)
  moreover have "map_of (timers (handle e s)) i = Some ty"
    using Cons.prems by (simp add: keep_timer)
  ultimately show ?case using Cons.IH Cons.prems(1) by simp
qed

lemma on_timeout_pending:
  assumes "has_pending i s" and "map_of (timers s) i = Some ty"
  shows "on_timeout i s =
     invoke (RejectCall (Some i) (''Worker request timeout: '' @ ty))
       (delete_pending i (s\<lparr>timers := AList.delete i (timers s)\<rparr>))"
  using assms by (simp add: on_timeout_def Let_def has_pending_def)

text \<open>
  Claim C8. When the worker exits, the exit listener rejects every entry that is still
  pending with the error \<open>Worker exited unexpectedly\<close>, one rejection per entry in
  the order of the map, and leaves the map empty: no id is pending afterwards.
\<close>

theorem worker_exit_rejects_all_pending:
  "pendingRequests (on_exit s) = [] \<and>
   \<not> worker (on_exit s) \<and>
   calls (on_exit s) =
     calls s @ map (\<lambda>e. RejectCall (Some (fst e)) ''Worker exited unexpectedly'')
                 (pendingRequests s) \<and>
   (\<forall>i. \<not> has_pending i (on_exit s))"
proof -
  have p: "pendingRequests (on_exit s) = []"
    by (simp add: on_exit_def reject_all_pending)
  then show ?thesis
    by (simp add: on_exit_def reject_all_calls reject_all_other has_pending_def)
qed

theorem worker_exit_rejects_all_pending_witness:
  "pendingRequests (on_exit ex_two_pending) = [] \<and>
   calls (on_exit ex_two_pending) =
     [RejectCall (Some 1) ''Worker exited unexpectedly'',
      RejectCall (Some 2) ''Worker exited unexpectedly'']"
  using worker_exit_rejects_all_pending [of ex_two_pending]
  by (simp add: ex_two_pending_def init_manager_def sendToWorkerWithProgress_def Let_def)

text \<open>
  Claim C7. Take any reachable state, send a request (with or without a progress
  callback) and let any events follow that are not terminal for it: progress messages
  for it, messages for other ids, other sends, other timers. When its timer then fires,
  the request is still pending and had not been settled; the timer rejects it with the
  timeout error and removes it from the map. Whatever happens later (a late terminal
  message, the worker's exit, a second firing), the request stays settled exactly once.
\<close>

theorem timeout_rejects_exactly_once:
  assumes reach: "s0 = run es0 init_manager"
    and up: "worker s0 \<or> init_ok"
    and sent: "s1 = sendToWorkerWithProgress ty with_progress init_ok s0"
    and quiet: "\<forall>e\<in>set es. \<not> terminal_for (requestIdCounter s1) e"
    and fired: "s2 = on_timeout (requestIdCounter s1) (run es s1)"
  shows "has_pending (requestIdCounter s1) s1 \<and>
         \<not> has_pending (requestIdCounter s1) s2 \<and>
         calls s2 = calls (run es s1) @
            [RejectCall (Some (requestIdCounter s1)) (''Worker request timeout: '' @ ty)] \<and>
         settle_count (requestIdCounter s1) (run es s1) = 0 \<and>
         settle_count (requestIdCounter s1) s2 = 1 \<and>
         settle_count (requestIdCounter s1) (run later s2) = 1"
proof -
  let ?i = "requestIdCounter s1"
  have inv0: "mgr_inv s0" and tinv0: "timers_inv s0"
    using reach by (simp_all add: mgr_inv_run mgr_inv_init timers_inv_run timers_inv_init)
  have i: "?i = Suc (requestIdCounter s0)" using sent up by (simp add: send_fields)
  have hp1: "has_pending ?i s1" using sent up i by (simp add: send_fields)
  have "?i \<notin> fst ` set (timers s0)" using tinv0 i by (auto simp: timers_inv_def)
  then have "map_of (timers s0) ?i = None" by (simp add: map_of_eq_None_iff)
  moreover have "timers s1 = timers s0 @ [(?i, ty)]"
    using sent up by (auto simp: sendToWorkerWithProgress_def Let_def)
  ultimately have t1: "map_of (timers s1) ?i = Some ty" by (simp add: map_add_Some_iff)
  have inv1: "mgr_inv s1" using inv0 sent by (simp add: mgr_inv_send)
  have k: "has_pending ?i (run es s1)" "map_of (timers (run es s1)) ?i = Some ty"
    using keep_run[OF quiet hp1 t1] by simp_all
  have invr: "mgr_inv (run es s1)" using inv1 by (rule mgr_inv_run)
  have c0: "settle_count ?i (run es s1) = 0" using invr k(1) by (simp add: mgr_inv_def)
  have s2: "s2 = invoke (RejectCall (Some ?i) (''Worker request timeout: '' @ ty))
       (delete_pending ?i ((run es s1)\<lparr>timers := AList.delete ?i (timers (run es s1))\<rparr>))"
    using fired on_timeout_pending[OF k] by simp
  have np: "\<not> has_pending ?i s2" unfolding s2 by simp
  have cs: "calls s2 = calls (run es s1) @
      [RejectCall (Some ?i) (''Worker request timeout: '' @ ty)]"
    unfolding s2 by (simp add: invoke_def delete_pending_def)
  have c1: "settle_count ?i s2 = 1" using c0 by (simp add: settle_count_def cs)
  have inv2: "mgr_inv s2" using invr fired mgr_inv_on_timeout by simp
  have "settle_count ?i (run later s2) \<le> 1"
    using mgr_inv_run[OF inv2, of later] by (simp add: mgr_inv_def)
  moreover have "settle_count ?i s2 \<le> settle_count ?i (run later s2)"
    by (rule settle_count_run_mono)
  ultimately have c2: "settle_count ?i (run later s2) = 1" using c1 by simp
  show ?thesis using hp1 np cs c0 c1 c2 by simp
qed

theorem timeout_rejects_exactly_once_witness:
  "calls (run [WorkerMessage ex_done, TimerFires 1, WorkerExit]
      (on_timeout 1
        (run [WorkerMessage ex_progress, Send ''getSession'' False True]
          (sendToWorkerWithProgress ''streamImport'' True True init_manager)))) =
     [ProgressCall 1 ''50%'',
      RejectCall (Some 1) ''Worker request timeout: streamImport'',
      RejectCall (Some 2) ''Worker exited unexpectedly''] \<and>
   settle_count 1 (run [WorkerMessage ex_done, TimerFires 1, WorkerExit]
      (on_timeout 1
        (run [WorkerMessage ex_progress, Send ''getSession'' False True]
          (sendToWorkerWithProgress ''streamImport'' True True init_manager)))) = 1"
proof -
  have r: "init_manager = run [] init_manager" by simp
  have c: "requestIdCounter (sendToWorkerWithProgress ''streamImport'' True True init_manager) = 1"
    by (simp add: sendToWorkerWithProgress_def init_manager_def Let_def)
  have q: "\<forall>e\<in>set [WorkerMessage ex_progress, Send ''getSession'' False True].
      \<not> terminal_for
          (requestIdCounter (sendToWorkerWithProgress ''streamImport'' True True init_manager)) e"
    by (simp add: c ex_progress_def)
  have up: "worker init_manager \<or> True" by simp
  have v: "calls (run [WorkerMessage ex_done, TimerFires 1, WorkerExit]
      (on_timeout 1
        (run [WorkerMessage ex_progress, Send ''getSession'' False True]
          (sendToWorkerWithProgress ''streamImport'' True True init_manager)))) =
     [ProgressCall 1 ''50%'',
      RejectCall (Some 1) ''Worker request timeout: streamImport'',
      RejectCall (Some 2) ''Worker exited unexpectedly'']"
    by code_simp
  show ?thesis
    using timeout_rejects_exactly_once [OF r up refl q refl,
        where later = "[WorkerMessage ex_done, TimerFires 1, WorkerExit]"] v
    by (simp add: c)
qed

section \<open>The cleanup of the preprocessor\<close>

lemma cleanupTempFile_returns:
  "cleanupTempFile env p fs = Inr fs \<or> cleanupTempFile env p fs = Inr (fs(p := None))"
  by (simp add: cleanupTempFile_def unlinkSync_def split: option.splits)

lemma cleanupTempFile_guard:
  assumes "cleanupTempFile env p fs = Inr fs'" and "fs' \<noteq> fs"
  shows "js_includes p (getTempDir env) \<and> fs' = fs(p := None)"
  using assms
  by (auto simp: cleanupTempFile_def unlinkSync_def split: option.splits if_splits)

text \<open>
  Claim C5. The guard of \<open>cleanupTempFile\<close> is \<open>filePath.includes(getTempDir())\<close>: it
  asks whether the temporary directory occurs anywhere in the path, not whether the
  path starts with it. With \<open>/tmp\<close> as the temporary directory, the existing file
  \<open>/home/user/tmp/chatlab/notes.json\<close> does not lie under \<open>/tmp/chatlab\<close>, and the
  cleanup removes it.
\<close>

theorem cleanup_deletes_outside_temp_dir:
  "getTempDir ex_os = ''/tmp/chatlab'' \<and>
   \<not> lies_under (getTempDir ex_os) ex_outside \<and>
   existsSync ex_outside ex_files \<and>
   cleanupTempFile ex_os ex_outside ex_files = Inr (ex_files(ex_outside := None)) \<and>
   \<not> existsSync ex_outside (ex_files(ex_outside := None))"
  by (simp add: getTempDir_def path_join_def ex_os_def ex_outside_def ex_files_def
      lies_under_def existsSync_def cleanupTempFile_def unlinkSync_def no_unlink_error_def)

section \<open>Preprocessing\<close>

text \<open>
  The error paths that have a listener. An error of the pipeline during the second
  pass (a read error or a parse error) removes the output file and rejects the promise
  with that error, provided the removal itself does not fail. A rejected preprocessing
  makes \<open>streamImport\<close> return the failure before any database is created: the
  files are those that the preprocessing left.
\<close>

lemma pipeline_error_rejects:
  assumes "second_pass s" and "\<not> write_ended s" and "\<not> write_destroyed s"
    and "promise s = Pending" and "unlink_error env (outputPath s) = None"
  shows "promise (pp_step env (PipelineError e) s) = Rejected e \<and>
         pp_fs (pp_step env (PipelineError e) s) (outputPath s) = None \<and>
         uncaught (pp_step env (PipelineError e) s) = uncaught s"
  using assms
  by (simp add: on_pipeline_error_def Let_def existsSync_def unlinkSync_def reject_def
      onProgress_def)

lemma head_error_rejects:
  "promise s = Pending \<Longrightarrow> promise (pp_step env (HeadError e) s) = Rejected e"
  by (simp add: reject_def)

lemma streamImport_preprocess_rejected:
  assumes "detectFormat env filePath = Some f"
    and "has_preprocessor env filePath" and "needsPreprocess env filePath"
    and "uncaught (preprocessQQJson env filePath (preprocess_events env) fs) = None"
    and "promise (preprocessQQJson env filePath (preprocess_events env) fs) = Rejected e"
  shows "streamImport env filePath fs =
           (Returns (failed (''preprocessing failed: '' @ e)),
            pp_fs (preprocessQQJson env filePath (preprocess_events env) fs))"
  using assms by (simp add: streamImport_def prepare_def Let_def failed_def)

lemma parse_error_example:
  "promise (preprocessQQJson (ex_big_env ex_parse_error) ex_path ex_parse_error Map.empty) =
     Rejected ''Parser cannot parse input'' \<and>
   pp_fs (preprocessQQJson (ex_big_env ex_parse_error) ex_path ex_parse_error Map.empty)
     ''/tmp/chatlab/slim_0_chat.json'' = None \<and>
   streamImport (ex_big_env ex_parse_error) ex_path Map.empty =
     (Returns (failed ''preprocessing failed: Parser cannot parse input''), Map.empty)"
proof -
  have a: "promise (preprocessQQJson (ex_big_env ex_parse_error) ex_path ex_parse_error Map.empty) =
     Rejected ''Parser cannot parse input'' \<and>
    uncaught (preprocessQQJson (ex_big_env ex_parse_error) ex_path ex_parse_error Map.empty) = None \<and>
    pp_fs (preprocessQQJson (ex_big_env ex_parse_error) ex_path ex_parse_error Map.empty) =
      Map.empty"
    by (simp add: preprocessQQJson_def ex_big_env_def ex_env_def ex_parse_error_def
        pp_start_def getTempDir_def path_join_def on_head_data_def on_head_close_def
        on_read_data_def on_pipeline_data_def on_pipeline_error_def maxHeadSize_def
        onProgress_def writeStream_write_def reject_def existsSync_def unlinkSync_def
        no_unlink_error_def Let_def)
  have b: "detectFormat (ex_big_env ex_parse_error) ex_path = Some (''chatlab'', ''qq'')"
    "has_preprocessor (ex_big_env ex_parse_error) ex_path"
    "needsPreprocess (ex_big_env ex_parse_error) ex_path"
    "preprocess_events (ex_big_env ex_parse_error) = ex_parse_error"
    by (simp_all add: ex_big_env_def ex_env_def)
  show ?thesis
    using streamImport_preprocess_rejected[OF b(1) b(2) b(3), of Map.empty
        "''Parser cannot parse input''"] a
    by (simp add: b(4))
qed

text \<open>
  Claim C6. The write stream has no \<open>error\<close> listener. When writing the slimmed file
  fails after the second pass began, nothing rejects the promise and nothing removes
  the partial output: the error is an uncaught exception, the promise stays pending,
  the output file stays in the temporary directory, and \<open>streamImport\<close>, which awaits
  the promise, never returns its failure.
\<close>

theorem preprocess_write_error_unhandled:
  "promise (preprocessQQJson (ex_big_env ex_write_error) ex_path ex_write_error Map.empty) =
     Pending \<and>
   uncaught (preprocessQQJson (ex_big_env ex_write_error) ex_path ex_write_error Map.empty) =
     Some ''ENOSPC'' \<and>
   outputPath (preprocessQQJson (ex_big_env ex_write_error) ex_path ex_write_error Map.empty) =
     ''/tmp/chatlab/slim_0_chat.json'' \<and>
   pp_fs (preprocessQQJson (ex_big_env ex_write_error) ex_path ex_write_error Map.empty)
     ''/tmp/chatlab/slim_0_chat.json'' = Some Data \<and>
   written (preprocessQQJson (ex_big_env ex_write_error) ex_path ex_write_error Map.empty) =
     [''{messages:[\<newline>'', ''{m1}''] \<and>
   fst (streamImport (ex_big_env ex_write_error) ex_path Map.empty) = Never"
  by (simp add: streamImport_def prepare_def preprocessQQJson_def ex_big_env_def ex_env_def
      ex_write_error_def ex_path_def
      pp_start_def getTempDir_def path_join_def on_head_data_def on_head_close_def
      on_read_data_def on_pipeline_data_def on_pipeline_error_def maxHeadSize_def
      onProgress_def writeStream_write_def Let_def)

section \<open>The import engine\<close>

subsection \<open>Exceptions as values\<close>

lemma bindE_simps [simp]:
  "bindE (Inl e) f = Inl e"
  "bindE (Inr x) f = f x"
  by (simp_all add: bindE_def)

lemma bindE_eq_Inr: "(bindE m f = Inr y) = (\<exists>x. m = Inr x \<and> f x = Inr y)"
  by (cases m) simp_all

lemma bindE_eq_Inl:
  "(bindE m f = Inl e) = (m = Inl e \<or> (\<exists>x. m = Inr x \<and> f x = Inl e))"
  by (cases m) simp_all

lemma exec_eq_Inr:
  "(exec env f st = Inr st') =
     (fault env (stmts st) = None \<and> st' = st\<lparr> stmts := Suc (stmts st), db := f (db st) \<rparr>)"
  by (auto simp: exec_def split: option.splits)

lemma exec_no_fault:
  "fault env (stmts st) = None \<Longrightarrow>
   exec env f st = Inr (st\<lparr> stmts := Suc (stmts st), db := f (db st) \<rparr>)"
  by (simp add: exec_def)

text \<open>Invariants carried through the callbacks.\<close>

lemma onMembers_preserves:
  assumes step: "\<And>pid nm nick st st'. I st \<Longrightarrow> ensure_member env pid nm nick st = Inr st' \<Longrightarrow> I st'"
  shows "I st \<Longrightarrow> onMembers env ms st = Inr st' \<Longrightarrow> I st'"
proof (induction ms arbitrary: st)
  case Nil
  then show ?case by simp
next
  case (Cons m ms)
  from Cons.prems(2) obtain st1 where
    1: "ensure_member env (platformId m) (name m) (or_null (pm_nickname m)) st = Inr st1"
    and 2: "onMembers env ms st1 = Inr st'"
    by (auto simp: bindE_eq_Inr)
  from step[OF Cons.prems(1) 1] Cons.IH 2 show ?case by blast
qed

lemma onMessageBatch_preserves:
  assumes step: "\<And>msg st st'. I st \<Longrightarrow> import_message env msg st = Inr st' \<Longrightarrow> I st'"
  shows "I st \<Longrightarrow> onMessageBatch env msgs st = Inr st' \<Longrightarrow> I st'"
proof (induction msgs arbitrary: st)
  case Nil
  then show ?case by simp
next
  case (Cons m ms)
  from Cons.prems(2) obtain st1 where
    1: "import_message env m st = Inr st1" and 2: "onMessageBatch env ms st1 = Inr st'"
    by (auto simp: bindE_eq_Inr)
  from step[OF Cons.prems(1) 1] Cons.IH 2 show ?case by blast
qed

lemma callbacks_preserves:
  assumes meta: "\<And>m st st'. I st \<Longrightarrow> onMeta env m st = Inr st' \<Longrightarrow> I st'"
    and mem: "\<And>pid nm nick st st'. I st \<Longrightarrow> ensure_member env pid nm nick st = Inr st' \<Longrightarrow> I st'"
    and msg: "\<And>msg st st'. I st \<Longrightarrow> import_message env msg st = Inr st' \<Longrightarrow> I st'"
    and prog: "\<And>p st. I st \<Longrightarrow> I (st\<lparr> forwarded := forwarded st @ [p] \<rparr>)"
  shows "I st \<Longrightarrow> callbacks env es st = Inr st' \<Longrightarrow> I st'"
proof (induction es arbitrary: st)
  case Nil
  then show ?case by simp
next
  case (Cons e es)
  from Cons.prems(2) obtain st1 where
    1: "callback env e st = Inr st1" and 2: "callbacks env es st1 = Inr st'"
    by (auto simp: bindE_eq_Inr)
  have "I st1"
  proof (cases e)
    case (OnProgress p)
    then show ?thesis using 1 prog[OF Cons.prems(1)] by auto
  next
    case (OnMeta m)
    then show ?thesis using 1 meta[OF Cons.prems(1)] by auto
  next
    case (OnMembers ms)
    then show ?thesis using 1 onMembers_preserves[of I env, OF mem Cons.prems(1)] by auto
  next
    case (OnMessageBatch msgs)
    then show ?thesis using 1 onMessageBatch_preserves[of I env, OF msg Cons.prems(1)] by auto
  qed
  then show ?case using Cons.IH 2 by blast
qed

subsection \<open>The member table\<close>

lemma getMemberId_insert_same:
  "getMemberId_sql p (insertMember_sql p nm nick t) \<noteq> None"
  by (auto simp: getMemberId_sql_def insertMember_sql_def find_None_iff)

lemma find_app:
  "find P (xs @ ys) = (case find P xs of None \<Rightarrow> find P ys | Some x \<Rightarrow> Some x)"
  by (induction xs) simp_all

lemma getMemberId_insert_keep:
  "getMemberId_sql q t = Some i \<Longrightarrow> getMemberId_sql q (insertMember_sql p nm nick t) = Some i"
  by (auto simp: getMemberId_sql_def insertMember_sql_def find_app split: option.splits)

lemma getMemberId_Some_iff:
  assumes "distinct (map platform_id ms)"
  shows "(map_option member_id (find (\<lambda>r. platform_id r = p) ms) = Some i) =
         (\<exists>r\<in>set ms. platform_id r = p \<and> member_id r = i)"
  using assms
proof (induction ms)
  case Nil
  then show ?case by simp
next
  case (Cons r ms)
  then show ?case by (auto simp: image_iff)
qed

lemma insertMember_distinct:
  "distinct (map platform_id (member t)) \<Longrightarrow>
   distinct (map platform_id (member (insertMember_sql p nm nick t)))"
  by (simp add: insertMember_sql_def)

lemma insertMember_ids:
  assumes "distinct (map member_id (member t))"
    and "\<forall>r\<in>set (member t). member_id r \<le> member_seq t"
  shows "distinct (map member_id (member (insertMember_sql p nm nick t)))"
    and "\<forall>r\<in>set (member (insertMember_sql p nm nick t)).
           member_id r \<le> member_seq (insertMember_sql p nm nick t)"
  using assms by (auto simp: insertMember_sql_def)

lemma ensure_member_effect:
  assumes "ensure_member env pid nm nick st = Inr st'"
  shows "member (db st') = member (insertMember_sql pid nm nick (db st))"
    and "memberIdMap st' = (memberIdMap st)(pid := getMemberId_sql pid (db st'))"
    and "getMemberId_sql pid (db st') \<noteq> None"
    and "db st' = insertMember_sql pid nm nick (db st)"
    and "nicknameTracker st' = nicknameTracker st"
    and "warnings st' = warnings st"
  using assms getMemberId_insert_same[of pid nm nick "db st"]
  by (auto simp: ensure_member_def bindE_eq_Inr exec_eq_Inr split: option.splits)

lemma ensure_member_members_ok:
  assumes "members_ok st" and "ensure_member env pid nm nick st = Inr st'"
  shows "members_ok st'"
proof -
  note e = ensure_member_effect[OF assms(2)]
  have d: "distinct (map platform_id (member (db st')))"
    using assms(1) by (simp add: e(1) members_ok_def insertMember_distinct)
  have i: "distinct (map member_id (member (db st')))"
    using assms(1) insertMember_ids(1)[of "db st" pid nm nick]
    by (simp add: e(4) members_ok_def)
  have b: "\<forall>r\<in>set (member (db st')). member_id r \<le> member_seq (db st')"
    using assms(1) insertMember_ids(2)[of "db st" pid nm nick]
    by (simp add: e(4) members_ok_def)
  have m: "\<forall>p i. memberIdMap st' p = Some i \<longrightarrow> getMemberId_sql p (db st') = Some i"
    using assms(1) by (auto simp: e(2) e(4) members_ok_def getMemberId_insert_keep)
  show ?thesis using d i b m by (simp add: members_ok_def)
qed

subsection \<open>One message\<close>

lemma valid_message_iff: "valid_message msg = (\<not> js_invalid msg)"
  by (auto simp: valid_message_def js_invalid_def check_message_def falsy_def
      split: option.splits jsnum.splits)

lemma check_message_valid:
  "check_message msg = Inr (pid, nm, t, ty) \<Longrightarrow>
     valid_message msg \<and> senderPlatformId msg = Some pid \<and> senderName msg = Some nm \<and>
     timestamp msg = Some (Num t) \<and> msgType msg = Some ty \<and> pid \<noteq> [] \<and> nm \<noteq> [] \<and>
     sender_of msg = pid"
  by (auto simp: valid_message_def check_message_def falsy_def sender_of_def
      split: option.splits jsnum.splits if_splits)

lemma check_message_invalid:
  "check_message msg = Inl w \<Longrightarrow> \<not> valid_message msg"
  by (simp add: valid_message_def)

lemma track_nickname_effect:
  assumes "track_nickname env pid i nm t st = Inr st'"
  shows "member (db st') = member (db st)"
    and "message (db st') = message (db st)"
    and "meta (db st') = meta (db st)"
    and "memberIdMap st' = memberIdMap st"
    and "warnings st' = warnings st"
    and "map_of (nicknameTracker st') = (map_of (nicknameTracker st))(pid \<mapsto> (nm, t))"
    and "member_name_history (db st') =
          (case map_of (nicknameTracker st) pid of
             None \<Rightarrow> member_name_history (db st) @
                [\<lparr> nh_id = Suc (length (member_name_history (db st))), nh_member_id = i,
                   nh_name = nm, start_ts = t, end_ts = None \<rparr>]
           | Some (cur, seen) \<Rightarrow>
               if cur \<noteq> nm
               then map (close_interval t i) (member_name_history (db st)) @
                [\<lparr> nh_id = Suc (length (member_name_history (db st))), nh_member_id = i,
                   nh_name = nm, start_ts = t, end_ts = None \<rparr>]
               else member_name_history (db st))"
    and "member_seq (db st') = member_seq (db st)"
  using assms
  by (auto simp: track_nickname_def bindE_eq_Inr exec_eq_Inr update_conv'
      insertNameHistory_sql_def updateNameHistoryEndTs_sql_def
      split: option.splits if_splits)

lemma import_message_invalid:
  "check_message msg = Inl w \<Longrightarrow>
   import_message env msg st = Inr (st\<lparr> warnings := warnings st @ [w] \<rparr>)"
  by (simp add: import_message_def)

lemma import_message_valid:
  assumes c: "check_message msg = Inr (pid, nm, t, ty)"
    and r: "import_message env msg st = Inr st'"
  shows "\<exists>st1 st2 i.
          (if memberIdMap st pid = None then ensure_member env pid nm None st = Inr st1
           else st1 = st) \<and>
          memberIdMap st1 pid = Some i \<and>
          exec env (insertMessage_sql i t ty (content msg)) st1 = Inr st2 \<and>
          track_nickname env pid i nm t st2 = Inr st'"
proof -
  have nm: "or_else nm pid = nm" using check_message_valid[OF c] by (simp add: or_else_def)
  have "import_message env msg st =
      bindE (if memberIdMap st pid = None then ensure_member env pid nm None st else Inr st)
        (\<lambda>st. case memberIdMap st pid of None \<Rightarrow> Inr st
             | Some senderId \<Rightarrow>
                 bindE (exec env (insertMessage_sql senderId t ty (content msg)) st)
                   (track_nickname env pid senderId nm t))"
    by (simp add: import_message_def c nm cong: option.case_cong)
  with r obtain st1 where
    1: "(if memberIdMap st pid = None then ensure_member env pid nm None st else Inr st) = Inr st1"
    and 2: "(case memberIdMap st1 pid of None \<Rightarrow> Inr st1
             | Some senderId \<Rightarrow>
                 bindE (exec env (insertMessage_sql senderId t ty (content msg)) st1)
                   (track_nickname env pid senderId nm t)) = Inr st'"
    by (auto simp: bindE_eq_Inr)
  have "memberIdMap st1 pid \<noteq> None"
  proof (cases "memberIdMap st pid = None")
    case True
    then have "ensure_member env pid nm None st = Inr st1" using 1 by simp
    from ensure_member_effect(2,3)[OF this] show ?thesis by simp
  next
    case False
    then have "st1 = st" using 1 by auto
    then show ?thesis using False by simp
  qed
  then obtain i where i: "memberIdMap st1 pid = Some i" by blast
  with 2 obtain st2 where
    "exec env (insertMessage_sql i t ty (content msg)) st1 = Inr st2"
    "track_nickname env pid i nm t st2 = Inr st'"
    by (auto simp: bindE_eq_Inr)
  with 1 i show ?thesis by (cases "memberIdMap st pid = None") auto
qed

lemma exec_members_ok:
  assumes "members_ok st" and "exec env f st = Inr st'"
    and "\<And>t. member (f t) = member t" and "\<And>t. member_seq (f t) = member_seq t"
  shows "members_ok st'"
  using assms by (auto simp: exec_eq_Inr members_ok_def getMemberId_sql_def)

lemma track_nickname_members_ok:
  assumes "members_ok st" and "track_nickname env pid i nm t st = Inr st'"
  shows "members_ok st'"
  using assms(1) track_nickname_effect(1,4,8)[OF assms(2)]
  by (simp add: members_ok_def getMemberId_sql_def)

lemma import_message_members_ok:
  assumes ok: "members_ok st" and r: "import_message env msg st = Inr st'"
  shows "members_ok st'"
proof (cases "check_message msg")
  case (Inl w)
  then show ?thesis using ok r
    by (auto simp: import_message_invalid members_ok_def)
next
  case (Inr x)
  obtain pid nm t ty where x: "x = (pid, nm, t, ty)" by (cases x)
  from import_message_valid[OF Inr[unfolded x] r] obtain st1 st2 i where
    1: "if memberIdMap st pid = None then ensure_member env pid nm None st = Inr st1
        else st1 = st"
    and 3: "exec env (insertMessage_sql i t ty (content msg)) st1 = Inr st2"
    and 4: "track_nickname env pid i nm t st2 = Inr st'"
    by blast
  have "members_ok st1" using 1 ok ensure_member_members_ok
    by (cases "memberIdMap st pid = None") auto
  then have "members_ok st2" using 3
    by (rule exec_members_ok) (simp_all add: insertMessage_sql_def)
  then show ?thesis using 4 by (rule track_nickname_members_ok)
qed

lemma onMeta_members_ok:
  assumes "members_ok st" and "onMeta env m st = Inr st'"
  shows "members_ok st'"
  using assms
  by (auto simp: onMeta_def bindE_eq_Inr exec_eq_Inr members_ok_def getMemberId_sql_def
      insertMeta_sql_def split: if_splits)

lemma callbacks_members_ok:
  assumes "members_ok st" and "callbacks env es st = Inr st'"
  shows "members_ok st'"
proof (rule callbacks_preserves[where I = members_ok and env = env, OF _ _ _ _ assms])
  show "\<And>m st st'. members_ok st \<Longrightarrow> onMeta env m st = Inr st' \<Longrightarrow> members_ok st'"
    by (rule onMeta_members_ok)
  show "\<And>pid nm nick st st'. members_ok st \<Longrightarrow>
          ensure_member env pid nm nick st = Inr st' \<Longrightarrow> members_ok st'"
    by (rule ensure_member_members_ok)
  show "\<And>msg st st'. members_ok st \<Longrightarrow> import_message env msg st = Inr st' \<Longrightarrow> members_ok st'"
    by (rule import_message_members_ok)
  show "\<And>p st. members_ok st \<Longrightarrow> members_ok (st\<lparr>forwarded := forwarded st @ [p]\<rparr>)"
    by (simp add: members_ok_def)
qed

lemma updateMemberName_keeps:
  "map platform_id (member (updateMemberName_sql nm pid t)) = map platform_id (member t)"
  "map member_id (member (updateMemberName_sql nm pid t)) = map member_id (member t)"
  "member_name_history (updateMemberName_sql nm pid t) = member_name_history t"
  "message (updateMemberName_sql nm pid t) = message t"
  "meta (updateMemberName_sql nm pid t) = meta t"
  by (simp_all add: updateMemberName_sql_def comp_def if_distrib cong: if_cong)

lemma update_member_names_effect:
  assumes "update_member_names env tr st = Inr st'"
  shows "map platform_id (member (db st')) = map platform_id (member (db st))"
    and "map member_id (member (db st')) = map member_id (member (db st))"
    and "member_name_history (db st') = member_name_history (db st)"
    and "message (db st') = message (db st)"
    and "meta (db st') = meta (db st)"
    and "warnings st' = warnings st"
    and "memberIdMap st' = memberIdMap st"
    and "nicknameTracker st' = nicknameTracker st"
  using assms
proof (induction tr arbitrary: st)
  case Nil
  { case 1 then show ?case by simp }
  { case 2 then show ?case by simp }
  { case 3 then show ?case by simp }
  { case 4 then show ?case by simp }
  { case 5 then show ?case by simp }
  { case 6 then show ?case by simp }
  { case 7 then show ?case by simp }
  { case 8 then show ?case by simp }
next
  case (Cons a tr)
  obtain pid cur seen where a: "a = (pid, cur, seen)" by (cases a)
  { case 1 then show ?case using Cons.IH(1) a
      by (auto simp: bindE_eq_Inr exec_eq_Inr updateMemberName_keeps) }
  { case 2 then show ?case using Cons.IH(2) a
      by (auto simp: bindE_eq_Inr exec_eq_Inr updateMemberName_keeps) }
  { case 3 then show ?case using Cons.IH(3) a
      by (auto simp: bindE_eq_Inr exec_eq_Inr updateMemberName_keeps) }
  { case 4 then show ?case using Cons.IH(4) a
      by (auto simp: bindE_eq_Inr exec_eq_Inr updateMemberName_keeps) }
  { case 5 then show ?case using Cons.IH(5) a
      by (auto simp: bindE_eq_Inr exec_eq_Inr updateMemberName_keeps) }
  { case 6 then show ?case using Cons.IH(6) a
      by (auto simp: bindE_eq_Inr exec_eq_Inr updateMemberName_keeps) }
  { case 7 then show ?case using Cons.IH(7) a
      by (auto simp: bindE_eq_Inr exec_eq_Inr updateMemberName_keeps) }
  { case 8 then show ?case using Cons.IH(8) a
      by (auto simp: bindE_eq_Inr exec_eq_Inr updateMemberName_keeps) }
qed

lemma find_updateName:
  "map_option member_id (find (\<lambda>r. platform_id r = p)
     (map (\<lambda>r. if platform_id r = q then r\<lparr> member_name := nm \<rparr> else r) ms)) =
   map_option member_id (find (\<lambda>r. platform_id r = p) (ms :: member_row list))"
  by (induction ms) simp_all

lemma getMemberId_updateName:
  "getMemberId_sql p (updateMemberName_sql nm q t) = getMemberId_sql p t"
  by (simp add: getMemberId_sql_def updateMemberName_sql_def find_updateName)

lemma update_member_names_getMemberId:
  assumes "update_member_names env tr st = Inr st'"
  shows "getMemberId_sql p (db st') = getMemberId_sql p (db st)"
  using assms
proof (induction tr arbitrary: st)
  case Nil
  then show ?case by simp
next
  case (Cons a tr)
  obtain pid cur seen where a: "a = (pid, cur, seen)" by (cases a)
  from Cons.prems obtain st1 where
    1: "exec env (updateMemberName_sql cur pid) st = Inr st1"
    and 2: "update_member_names env tr st1 = Inr st'"
    by (auto simp: a bindE_eq_Inr)
  have "getMemberId_sql p (db st1) = getMemberId_sql p (db st)"
    using 1 by (auto simp: exec_eq_Inr getMemberId_updateName)
  then show ?case using Cons.IH[OF 2] by simp
qed

subsection \<open>Counting rows and warnings\<close>

lemma import_message_counts:
  assumes "import_message env msg st = Inr st'"
  shows "length (message (db st')) =
           length (message (db st)) + (if valid_message msg then 1 else 0)"
    and "length (warnings st') = length (warnings st) + (if valid_message msg then 0 else 1)"
proof -
  have "length (message (db st')) =
           length (message (db st)) + (if valid_message msg then 1 else 0) \<and>
        length (warnings st') = length (warnings st) + (if valid_message msg then 0 else 1)"
  proof (cases "check_message msg")
    case (Inl w)
    then show ?thesis using assms check_message_invalid[OF Inl]
      by (auto simp: import_message_invalid)
  next
    case (Inr x)
    obtain pid nm t ty where x: "x = (pid, nm, t, ty)" by (cases x)
    note v = check_message_valid[OF Inr[unfolded x]]
    from import_message_valid[OF Inr[unfolded x] assms] obtain st1 st2 i where
      1: "if memberIdMap st pid = None then ensure_member env pid nm None st = Inr st1
          else st1 = st"
      and 3: "exec env (insertMessage_sql i t ty (content msg)) st1 = Inr st2"
      and 4: "track_nickname env pid i nm t st2 = Inr st'"
      by blast
    have a: "message (db st1) = message (db st) \<and> warnings st1 = warnings st"
    proof (cases "memberIdMap st pid = None")
      case True
      then have "ensure_member env pid nm None st = Inr st1" using 1 by simp
      from ensure_member_effect(4,6)[OF this] show ?thesis
        by (simp add: insertMember_sql_def)
    next
      case False
      then show ?thesis using 1 by simp
    qed
    have b: "length (message (db st2)) = Suc (length (message (db st1))) \<and>
             warnings st2 = warnings st1"
      using 3 by (auto simp: exec_eq_Inr insertMessage_sql_def)
    show ?thesis using a b track_nickname_effect(2,5)[OF 4] v by simp
  qed
  then show "length (message (db st')) =
           length (message (db st)) + (if valid_message msg then 1 else 0)"
    and "length (warnings st') = length (warnings st) + (if valid_message msg then 0 else 1)"
    by simp_all
qed

lemma onMessageBatch_counts:
  assumes "onMessageBatch env msgs st = Inr st'"
  shows "length (message (db st')) =
           length (message (db st)) + length (filter valid_message msgs) \<and>
         length (warnings st') =
           length (warnings st) + length (filter (\<lambda>m. \<not> valid_message m) msgs)"
  using assms
proof (induction msgs arbitrary: st)
  case Nil
  then show ?case by simp
next
  case (Cons m ms)
  from Cons.prems obtain st1 where
    1: "import_message env m st = Inr st1" and 2: "onMessageBatch env ms st1 = Inr st'"
    by (auto simp: bindE_eq_Inr)
  show ?case using import_message_counts[OF 1] Cons.IH[OF 2] by simp
qed

lemma onMembers_counts:
  assumes "onMembers env ms st = Inr st'"
  shows "message (db st') = message (db st) \<and> warnings st' = warnings st"
  using assms
proof (induction ms arbitrary: st)
  case Nil
  then show ?case by simp
next
  case (Cons m ms)
  from Cons.prems obtain st1 where
    1: "ensure_member env (platformId m) (name m) (or_null (pm_nickname m)) st = Inr st1"
    and 2: "onMembers env ms st1 = Inr st'"
    by (auto simp: bindE_eq_Inr)
  show ?case using ensure_member_effect(4,6)[OF 1] Cons.IH[OF 2]
    by (simp add: insertMember_sql_def)
qed

lemma callbacks_counts:
  assumes "callbacks env es st = Inr st'"
  shows "length (message (db st')) =
           length (message (db st)) + length (filter valid_message (all_messages es)) \<and>
         length (warnings st') =
           length (warnings st) +
           length (filter (\<lambda>m. \<not> valid_message m) (all_messages es))"
  using assms
proof (induction es arbitrary: st)
  case Nil
  then show ?case by simp
next
  case (Cons e es)
  from Cons.prems obtain st1 where
    1: "callback env e st = Inr st1" and 2: "callbacks env es st1 = Inr st'"
    by (auto simp: bindE_eq_Inr)
  show ?case
  proof (cases e)
    case (OnProgress p)
    then show ?thesis using 1 Cons.IH[OF 2] by auto
  next
    case (OnMeta m)
    then have "message (db st1) = message (db st) \<and> warnings st1 = warnings st"
      using 1 by (auto simp: onMeta_def bindE_eq_Inr exec_eq_Inr insertMeta_sql_def
          split: if_splits)
    then show ?thesis using OnMeta Cons.IH[OF 2] by simp
  next
    case (OnMembers ms)
    then show ?thesis using 1 onMembers_counts[of env ms st st1] Cons.IH[OF 2] by simp
  next
    case (OnMessageBatch msgs)
    then show ?thesis using 1 onMessageBatch_counts[of env msgs st st1] Cons.IH[OF 2] by simp
  qed
qed

subsection \<open>Without faults every step returns\<close>

lemma exec_total: "no_faults env \<Longrightarrow> \<exists>st'. exec env f st = Inr st'"
  by (simp add: no_faults_def exec_def)

lemma ensure_member_total: "no_faults env \<Longrightarrow> \<exists>st'. ensure_member env pid nm nick st = Inr st'"
  by (auto simp: ensure_member_def no_faults_def exec_def split: option.splits)

lemma track_nickname_total:
  "no_faults env \<Longrightarrow> \<exists>st'. track_nickname env pid i nm t st = Inr st'"
  by (auto simp: track_nickname_def no_faults_def exec_def split: option.splits)

lemma import_message_total:
  assumes nf: "no_faults env"
  shows "\<exists>st'. import_message env msg st = Inr st'"
proof (cases "check_message msg")
  case (Inl w)
  then show ?thesis by (simp add: import_message_invalid)
next
  case (Inr x)
  obtain pid nm t ty where x: "x = (pid, nm, t, ty)" by (cases x)
  have "\<exists>st1. (if memberIdMap st pid = None
           then ensure_member env pid (or_else nm pid) None st else Inr st) = Inr st1"
    using ensure_member_total[OF nf, of pid "or_else nm pid" None st] by simp
  then obtain st1 where 1:
    "(if memberIdMap st pid = None then ensure_member env pid (or_else nm pid) None st
      else Inr st) = Inr st1"
    by blast
  show ?thesis
  proof (cases "memberIdMap st1 pid")
    case None
    then show ?thesis using Inr x 1 by (simp add: import_message_def)
  next
    case (Some i)
    obtain st2 where 2: "exec env (insertMessage_sql i t ty (content msg)) st1 = Inr st2"
      using exec_total[OF nf] by blast
    obtain st3 where 3: "track_nickname env pid i (or_else nm pid) t st2 = Inr st3"
      using track_nickname_total[OF nf] by blast
    show ?thesis using Inr x 1 Some 2 3 by (simp add: import_message_def)
  qed
qed

lemma onMessageBatch_total:
  "no_faults env \<Longrightarrow> \<exists>st'. onMessageBatch env msgs st = Inr st'"
proof (induction msgs arbitrary: st)
  case Nil
  then show ?case by simp
next
  case (Cons m ms)
  obtain st1 where "import_message env m st = Inr st1"
    using import_message_total[OF Cons.prems] by blast
  then show ?case using Cons.IH[OF Cons.prems, of st1] by simp
qed

lemma onMembers_total:
  "no_faults env \<Longrightarrow> \<exists>st'. onMembers env ms st = Inr st'"
proof (induction ms arbitrary: st)
  case Nil
  then show ?case by simp
next
  case (Cons m ms)
  obtain st1 where "ensure_member env (platformId m) (name m) (or_null (pm_nickname m)) st = Inr st1"
    using ensure_member_total[OF Cons.prems] by blast
  then show ?case using Cons.IH[OF Cons.prems, of st1] by simp
qed

lemma callbacks_total:
  "no_faults env \<Longrightarrow> \<exists>st'. callbacks env es st = Inr st'"
proof (induction es arbitrary: st)
  case Nil
  then show ?case by simp
next
  case (Cons e es)
  have "\<exists>st1. callback env e st = Inr st1"
  proof (cases e)
    case (OnProgress p)
    then show ?thesis by simp
  next
    case (OnMeta m)
    then show ?thesis using Cons.prems
      by (auto simp: onMeta_def no_faults_def exec_def)
  next
    case (OnMembers ms)
    then show ?thesis using onMembers_total[OF Cons.prems] by simp
  next
    case (OnMessageBatch msgs)
    then show ?thesis using onMessageBatch_total[OF Cons.prems] by simp
  qed
  then obtain st1 where "callback env e st = Inr st1" by blast
  then show ?case using Cons.IH[OF Cons.prems, of st1] by simp
qed

lemma update_member_names_total:
  "no_faults env \<Longrightarrow> \<exists>st'. update_member_names env tr st = Inr st'"
proof (induction tr arbitrary: st)
  case Nil
  then show ?case by simp
next
  case (Cons a tr)
  obtain pid cur seen where a: "a = (pid, cur, seen)" by (cases a)
  obtain st1 where "exec env (updateMemberName_sql cur pid) st = Inr st1"
    using exec_total[OF Cons.prems] by blast
  then show ?case using Cons.IH[OF Cons.prems, of st1] a by simp
qed

lemma try_block_total:
  assumes "no_faults env"
  shows "\<exists>st. try_block env (es, None) t = Inr st"
proof -
  obtain st1 where 1: "callbacks env es (start_state t) = Inr st1"
    using callbacks_total[OF assms] by blast
  obtain st2 where 2: "update_member_names env (nicknameTracker st1) st1 = Inr st2"
    using update_member_names_total[OF assms] by blast
  obtain st3 where 3: "exec env id st2 = Inr st3" using exec_total[OF assms] by blast
  show ?thesis using 1 2 3 by (simp add: try_block_def)
qed

text \<open>What a successful \<open>try\<close> block went through.\<close>

lemma try_block_Inr:
  assumes "try_block env parse t = Inr st"
  shows "\<exists>st1 st2. snd parse = None \<and>
           callbacks env (fst parse) (start_state t) = Inr st1 \<and>
           update_member_names env (nicknameTracker st1) st1 = Inr st2 \<and>
           db st = db st2 \<and> warnings st = warnings st2 \<and>
           memberIdMap st = memberIdMap st2 \<and> nicknameTracker st = nicknameTracker st2"
  using assms
  by (auto simp: try_block_def bindE_eq_Inr exec_eq_Inr split: option.splits)

subsection \<open>From the transaction to streamImport\<close>

lemma side_paths [simp]:
  "wal_path p \<noteq> p" "shm_path p \<noteq> p" "p \<noteq> wal_path p" "p \<noteq> shm_path p"
  "wal_path p \<noteq> shm_path p" "shm_path p \<noteq> wal_path p"
  by (simp_all add: wal_path_def shm_path_def)

lemma db_close_at_db [simp]: "db_close env fs (getDbPath env) = fs (getDbPath env)"
  by (simp add: db_close_def)

lemma db_close_None: "fs p = None \<Longrightarrow> db_close env fs p = None"
  by (simp add: db_close_def)

lemma db_close_moved:
  "fs (getDbPath env) = None \<Longrightarrow> db_close env fs = fs"
  by (simp add: db_close_def existsSync_def)

lemma finally_block_returns:
  "\<exists>fs'. finally_block env tmp r fs = (Returns r, fs') \<and>
         (\<forall>p. tmp \<noteq> Some p \<longrightarrow> fs' p = db_close env fs p) \<and>
         (\<forall>p. db_close env fs p = None \<longrightarrow> fs' p = None)"
proof (cases tmp)
  case None
  then show ?thesis by (simp add: finally_block_def)
next
  case (Some q)
  from cleanupTempFile_returns[of env q "db_close env fs"] show ?thesis
    using Some by (auto simp: finally_block_def)
qed

lemma createDatabase_exists:
  "createDatabase env fs = Inr (fs2, t0) \<Longrightarrow> fs2 (getDbPath env) = Some (Db t0)"
  by (auto simp: createDatabase_def split: option.splits content.splits)

lemma createDatabase_side_files:
  "createDatabase env fs = Inr (fs2, t0) \<Longrightarrow>
   fs2 (wal_path (getDbPath env)) = Some Data \<and> fs2 (shm_path (getDbPath env)) = Some Data"
  by (auto simp: createDatabase_def split: option.splits content.splits)

lemma createDatabase_fresh:
  "fs (getDbPath env) = None \<Longrightarrow>
   createDatabase env fs =
     Inr (fs(getDbPath env \<mapsto> Db empty_tables,
             wal_path (getDbPath env) \<mapsto> Data,
             shm_path (getDbPath env) \<mapsto> Data), empty_tables)"
  by (simp add: createDatabase_def)

lemma import_into_store_commit:
  assumes "createDatabase env fs1 = Inr (fs2, t0)"
    and "try_block env (streamParseFile env actual 5000) t0 = Inr st"
  shows "import_into_store env actual tmp fs1 =
           finally_block env tmp (committed env) (fs2(getDbPath env \<mapsto> Db (db st)))"
  using assms by (simp add: import_into_store_def committed_def)

lemma import_into_store_rollback:
  assumes "createDatabase env fs1 = Inr (fs2, t0)"
    and "try_block env (streamParseFile env actual 5000) t0 = Inl x"
    and "\<not> txn_ended x"
    and "unlink_error env (getDbPath env) = None"
  shows "import_into_store env actual tmp fs1 =
           finally_block env tmp (failed (exn_message x)) (fs2(getDbPath env := None))"
  using assms createDatabase_exists[OF assms(1)]
  by (simp add: import_into_store_def catch_block_def failed_def existsSync_def unlinkSync_def)

lemma streamImport_ready:
  assumes "detectFormat env filePath = Some f"
    and "prepare env filePath fs = Ready actual tmp fs1"
  shows "streamImport env filePath fs = import_into_store env actual tmp fs1"
  using assms by (simp add: streamImport_def)

lemma streamImport_commits:
  assumes fmt: "detectFormat env filePath = Some f"
    and prep: "prepare env filePath fs = Ready actual tmp fs1"
    and fresh: "fs1 (getDbPath env) = None"
    and other: "tmp \<noteq> Some (getDbPath env)"
    and body: "try_block env (streamParseFile env actual 5000) empty_tables = Inr st"
  shows "\<exists>fs'. streamImport env filePath fs = (Returns (committed env), fs') \<and>
               fs' (getDbPath env) = Some (Db (db st))"
proof -
  let ?fs2 = "fs1(getDbPath env \<mapsto> Db empty_tables,
                  wal_path (getDbPath env) \<mapsto> Data,
                  shm_path (getDbPath env) \<mapsto> Data)"
  have c: "createDatabase env fs1 = Inr (?fs2, empty_tables)"
    using fresh by (rule createDatabase_fresh)
  obtain fs' where f: "finally_block env tmp (committed env)
        (?fs2(getDbPath env \<mapsto> Db (db st))) = (Returns (committed env), fs')"
    and k: "\<forall>p. tmp \<noteq> Some p \<longrightarrow>
        fs' p = db_close env (?fs2(getDbPath env \<mapsto> Db (db st))) p"
    using finally_block_returns by blast
  have "streamImport env filePath fs = (Returns (committed env), fs')"
    using streamImport_ready[OF fmt prep] import_into_store_commit[OF c body] f by simp
  moreover have "fs' (getDbPath env) = Some (Db (db st))" using k other by simp
  ultimately show ?thesis by blast
qed

text \<open>
  What a failed import does when \<open>ROLLBACK\<close> and the removal of the database file
  succeed: it returns the failure, the database file is gone, and the two files of the
  write-ahead log are still there, because the connection is closed after the database
  file was removed.
\<close>

lemma failed_import_general:
  assumes fmt: "detectFormat env filePath = Some f"
    and prep: "prepare env filePath fs = Ready actual tmp fs1"
    and fresh: "fs1 (getDbPath env) = None"
    and body: "try_block env (streamParseFile env actual 5000) empty_tables = Inl x"
    and active: "\<not> txn_ended x"
    and unlink: "unlink_error env (getDbPath env) = None"
    and other: "tmp \<noteq> Some (wal_path (getDbPath env))" "tmp \<noteq> Some (shm_path (getDbPath env))"
  shows "\<exists>fs'. streamImport env filePath fs = (Returns (failed (exn_message x)), fs') \<and>
               fs' (getDbPath env) = None \<and>
               fs' (wal_path (getDbPath env)) = Some Data \<and>
               fs' (shm_path (getDbPath env)) = Some Data"
proof -
  let ?fs2 = "fs1(getDbPath env \<mapsto> Db empty_tables,
                  wal_path (getDbPath env) \<mapsto> Data,
                  shm_path (getDbPath env) \<mapsto> Data)"
  let ?fs3 = "?fs2(getDbPath env := None)"
  have c: "createDatabase env fs1 = Inr (?fs2, empty_tables)"
    using fresh by (rule createDatabase_fresh)
  have m: "db_close env ?fs3 = ?fs3" by (rule db_close_moved) simp
  obtain fs' where f: "finally_block env tmp (failed (exn_message x)) ?fs3 =
        (Returns (failed (exn_message x)), fs')"
    and k: "\<forall>p. tmp \<noteq> Some p \<longrightarrow> fs' p = db_close env ?fs3 p"
    and n: "\<forall>p. db_close env ?fs3 p = None \<longrightarrow> fs' p = None"
    using finally_block_returns by blast
  have "streamImport env filePath fs = (Returns (failed (exn_message x)), fs')"
    using streamImport_ready[OF fmt prep] import_into_store_rollback[OF c body active unlink] f
    by simp
  moreover have "fs' (getDbPath env) = None" using n m by simp
  moreover have "fs' (wal_path (getDbPath env)) = Some Data" using k other(1) m by simp
  moreover have "fs' (shm_path (getDbPath env)) = Some Data" using k other(2) m by simp
  ultimately show ?thesis by blast
qed

subsection \<open>The example environment\<close>

lemma ex_env_facts:
  "detectFormat (ex_env parse flt) ex_path = Some (''chatlab'', ''qq'')"
  "prepare (ex_env parse flt) ex_path fs = Ready ex_path None fs"
  "getDbPath (ex_env parse flt) = ''/db/chat_1_abc.db''"
  "streamParseFile (ex_env parse flt) p n = parse"
  "unlink_error (ex_env parse flt) q = None"
  "statSync (ex_env parse flt) q = Inr 10"
  "fault (ex_env parse flt) = flt"
  by (simp_all add: ex_env_def prepare_def getDbPath_def path_join_def no_unlink_error_def)

lemma no_faults_ex: "no_faults (ex_env parse no_fault)"
  by (simp add: no_faults_def ex_env_facts no_fault_def)

subsection \<open>A failed import\<close>

text \<open>
  Claim C1. The claim asks that a failed import leaves no trace and returns the
  failure. The code does not achieve it. In the first run below the second
  \<open>insertMessage.run\<close> of a batch throws and the transaction is still open:
  \<open>ROLLBACK\<close> succeeds, the database file is removed and the failure is returned, but
  the connection is closed only afterwards, in \<open>finally\<close>, so the files \<open>-wal\<close> and
  \<open>-shm\<close> of the store stay on disk. In the second run the same statement fails with
  \<open>SQLITE_FULL\<close> and SQLite has rolled the transaction back by itself: \<open>ROLLBACK\<close>
  throws in the \<open>catch\<close> block, the database file is not removed, and \<open>streamImport\<close>
  throws instead of returning the failure.
\<close>

theorem failed_import_leaves_files:
  "fst (streamImport (ex_env ex_rename_run (fault_at 4 (Exn ''SQLITE_TOOBIG'' False)))
          ex_path Map.empty) = Returns (failed ''SQLITE_TOOBIG'') \<and>
   snd (streamImport (ex_env ex_rename_run (fault_at 4 (Exn ''SQLITE_TOOBIG'' False)))
          ex_path Map.empty) ''/db/chat_1_abc.db'' = None \<and>
   snd (streamImport (ex_env ex_rename_run (fault_at 4 (Exn ''SQLITE_TOOBIG'' False)))
          ex_path Map.empty) ''/db/chat_1_abc.db-wal'' = Some Data \<and>
   snd (streamImport (ex_env ex_rename_run (fault_at 4 (Exn ''SQLITE_TOOBIG'' False)))
          ex_path Map.empty) ''/db/chat_1_abc.db-shm'' = Some Data \<and>
   fst (streamImport (ex_env ex_rename_run (fault_at 4 (Exn ''SQLITE_FULL'' True)))
          ex_path Map.empty) = Throws ''cannot rollback - no transaction is active'' \<and>
   snd (streamImport (ex_env ex_rename_run (fault_at 4 (Exn ''SQLITE_FULL'' True)))
          ex_path Map.empty) ''/db/chat_1_abc.db'' = Some (Db empty_tables)"
  by code_simp

subsection \<open>The cleanup in the finally block\<close>

text \<open>
  Claim C10. \<open>cleanupTempFile\<close> returns normally for every path, every file system
  and every way in which the removal may fail: either nothing was removed or the file
  was. So the \<open>finally\<close> block of \<open>streamImport\<close> always lets the value being
  returned through, and an import whose transaction committed returns its success.
\<close>

theorem cleanup_never_raises:
  "(cleanupTempFile env p fs = Inr fs \<or> cleanupTempFile env p fs = Inr (fs(p := None))) \<and>
   fst (finally_block env2 tmp r fs) = Returns r \<and>
   (createDatabase env2 fs1 = Inr (fs2, t0) \<and>
    try_block env2 (streamParseFile env2 actual 5000) t0 = Inr st \<longrightarrow>
    fst (import_into_store env2 actual tmp fs1) = Returns (committed env2))"
proof -
  have a: "cleanupTempFile env p fs = Inr fs \<or> cleanupTempFile env p fs = Inr (fs(p := None))"
    by (rule cleanupTempFile_returns)
  have b: "\<And>r fs. fst (finally_block env2 tmp r fs) = Returns r"
    using finally_block_returns[of env2 tmp] by (metis fst_conv)
  have c: "createDatabase env2 fs1 = Inr (fs2, t0) \<and>
    try_block env2 (streamParseFile env2 actual 5000) t0 = Inr st \<longrightarrow>
    fst (import_into_store env2 actual tmp fs1) = Returns (committed env2)"
    using b by (auto simp: import_into_store_commit)
  show ?thesis using a b c by blast
qed

theorem cleanup_never_raises_witness:
  "cleanupTempFile ex_os_locked ex_tmpfile ex_tmpfiles = Inr ex_tmpfiles \<and>
   cleanupTempFile ex_os ex_tmpfile ex_files = Inr ex_files \<and>
   fst (finally_block (ex_env ex_rename_run no_fault) (Some ex_tmpfile)
          (committed (ex_env ex_rename_run no_fault)) ex_tmpfiles) =
     Returns (committed (ex_env ex_rename_run no_fault))"
proof -
  have 1: "cleanupTempFile ex_os_locked ex_tmpfile ex_tmpfiles = Inr ex_tmpfiles"
    by (simp add: cleanupTempFile_def unlinkSync_def ex_os_locked_def always_locked_def
        ex_tmpfiles_def existsSync_def)
  have 2: "cleanupTempFile ex_os ex_tmpfile ex_files = Inr ex_files"
    by (simp add: cleanupTempFile_def ex_files_def ex_tmpfile_def ex_outside_def existsSync_def)
  show ?thesis
    using cleanup_never_raises[of ex_os_locked ex_tmpfile ex_tmpfiles
        "ex_env ex_rename_run no_fault" "Some ex_tmpfile"
        "committed (ex_env ex_rename_run no_fault)"] 1 2
    by simp
qed

subsection \<open>Dropped messages\<close>

lemma filter_valid_js: "filter valid_message ms = filter (\<lambda>m. \<not> js_invalid m) ms"
  by (induction ms) (simp_all add: valid_message_iff)

lemma filter_invalid_js: "filter (\<lambda>m. \<not> valid_message m) ms = filter js_invalid ms"
  by (induction ms) (simp_all add: valid_message_iff)

lemma start_state_fields:
  "message (db (start_state empty_tables)) = []"
  "warnings (start_state empty_tables) = []"
  "member (db (start_state empty_tables)) = []"
  "member_name_history (db (start_state empty_tables)) = []"
  "nicknameTracker (start_state empty_tables) = []"
  "memberIdMap (start_state empty_tables) = Map.empty"
  by (simp_all add: start_state_def empty_tables_def)

lemma try_block_counts:
  assumes "try_block env (events, None) empty_tables = Inr st"
  shows "length (message (db st)) = length (filter (\<lambda>m. \<not> js_invalid m) (all_messages events))"
    and "length (warnings st) = length (filter js_invalid (all_messages events))"
proof -
  from try_block_Inr[OF assms] obtain st1 st2 where
    1: "callbacks env events (start_state empty_tables) = Inr st1"
    and 2: "update_member_names env (nicknameTracker st1) st1 = Inr st2"
    and 3: "db st = db st2" "warnings st = warnings st2"
    by auto
  note c = callbacks_counts[OF 1] and u = update_member_names_effect(4,6)[OF 2]
  show "length (message (db st)) =
      length (filter (\<lambda>m. \<not> js_invalid m) (all_messages events))"
    using c u 3 by (simp add: start_state_fields filter_valid_js)
  show "length (warnings st) = length (filter js_invalid (all_messages events))"
    using c u 3 by (simp add: start_state_fields filter_invalid_js)
qed

text \<open>
  Claim C3, as the code has it. A message is dropped when its sender id or its sender
  name is missing or empty, its timestamp is missing or \<open>NaN\<close>, or its type is
  missing: the loop logs one warning, writes nothing and goes on. When no statement
  fails and the parser completes, the import commits one message row for each message
  that is not dropped, the number of warnings is the number of dropped messages, and
  \<open>streamImport\<close> returns success. The warnings go to the console: no count of them
  is kept.
\<close>

theorem invalid_messages_are_dropped:
  assumes fmt: "detectFormat env filePath = Some f"
    and prep: "prepare env filePath fs = Ready actual tmp fs1"
    and fresh: "fs1 (getDbPath env) = None"
    and other: "tmp \<noteq> Some (getDbPath env)"
    and nf: "no_faults env"
    and parse: "streamParseFile env actual 5000 = (events, None)"
  shows "(js_invalid msg \<longrightarrow>
           (\<exists>w. import_message env msg st0 = Inr (st0\<lparr> warnings := warnings st0 @ [w] \<rparr>))) \<and>
         (\<exists>st fs'. try_block env (events, None) empty_tables = Inr st \<and>
            streamImport env filePath fs = (Returns (committed env), fs') \<and>
            fs' (getDbPath env) = Some (Db (db st)) \<and>
            length (message (db st)) =
              length (filter (\<lambda>m. \<not> js_invalid m) (all_messages events)) \<and>
            length (warnings st) = length (filter js_invalid (all_messages events)))"
proof -
  have a: "js_invalid msg \<longrightarrow>
      (\<exists>w. import_message env msg st0 = Inr (st0\<lparr> warnings := warnings st0 @ [w] \<rparr>))"
  proof
    assume "js_invalid msg"
    then have "\<not> valid_message msg" by (simp add: valid_message_iff)
    then obtain w where "check_message msg = Inl w"
      by (cases "check_message msg") (auto simp: valid_message_def)
    then show "\<exists>w. import_message env msg st0 = Inr (st0\<lparr> warnings := warnings st0 @ [w] \<rparr>)"
      using import_message_invalid by blast
  qed
  obtain st where st: "try_block env (events, None) empty_tables = Inr st"
    using try_block_total[OF nf] by blast
  then have body: "try_block env (streamParseFile env actual 5000) empty_tables = Inr st"
    using parse by simp
  from streamImport_commits[OF fmt prep fresh other body] obtain fs' where
    "streamImport env filePath fs = (Returns (committed env), fs')"
    "fs' (getDbPath env) = Some (Db (db st))"
    by blast
  with st try_block_counts[OF st] a show ?thesis by blast
qed

theorem invalid_messages_are_dropped_witness:
  "fst (streamImport (ex_env ex_no_name_run no_fault) ex_path Map.empty) =
     Returns (committed (ex_env ex_no_name_run no_fault)) \<and>
   snd (streamImport (ex_env ex_no_name_run no_fault) ex_path Map.empty)
       (getDbPath (ex_env ex_no_name_run no_fault)) =
     Some (Db \<lparr> meta = [],
       member = [\<lparr> member_id = 1, platform_id = ''p'', member_name = ''A'', nickname = None \<rparr>],
       member_name_history =
         [\<lparr> nh_id = 1, nh_member_id = 1, nh_name = ''A'', start_ts = 2, end_ts = None \<rparr>],
       message = [\<lparr> msg_id = 1, sender_id = 1, ts = 2, msg_type = 0,
                    msg_content = Some ''hi'' \<rparr>],
       member_seq = 1 \<rparr>) \<and>
   length (filter js_invalid (all_messages (fst ex_no_name_run))) = 1"
proof -
  let ?E = "ex_env ex_no_name_run no_fault"
  have p: "streamParseFile ?E ex_path 5000 = (fst ex_no_name_run, None)"
    by (simp add: ex_env_facts ex_no_name_run_def)
  have v: "snd (streamImport ?E ex_path Map.empty) (getDbPath ?E) =
     Some (Db \<lparr> meta = [],
       member = [\<lparr> member_id = 1, platform_id = ''p'', member_name = ''A'', nickname = None \<rparr>],
       member_name_history =
         [\<lparr> nh_id = 1, nh_member_id = 1, nh_name = ''A'', start_ts = 2, end_ts = None \<rparr>],
       message = [\<lparr> msg_id = 1, sender_id = 1, ts = 2, msg_type = 0,
                    msg_content = Some ''hi'' \<rparr>],
       member_seq = 1 \<rparr>)"
    by code_simp
  have n: "length (filter js_invalid (all_messages (fst ex_no_name_run))) = 1"
    by code_simp
  have fr: "Map.empty (getDbPath ?E) = None" by simp
  have ot: "None \<noteq> Some (getDbPath ?E)" by simp
  from invalid_messages_are_dropped[OF ex_env_facts(1) ex_env_facts(2) fr ot no_faults_ex p,
      of "ex_msg ''p'' [] 1" "start_state empty_tables"]
  obtain fs' where "streamImport ?E ex_path Map.empty = (Returns (committed ?E), fs')"
    by blast
  then have "fst (streamImport ?E ex_path Map.empty) = Returns (committed ?E)" by simp
  then show ?thesis using v n by simp
qed

lemma streamImport_ex_commits:
  assumes "try_block (ex_env parse flt) parse empty_tables = Inr st"
  shows "streamImport (ex_env parse flt) ex_path Map.empty =
           (Returns (committed (ex_env parse flt)), [''/db/chat_1_abc.db'' \<mapsto> Db (db st)])"
proof -
  let ?E = "ex_env parse flt"
  have c: "createDatabase ?E Map.empty =
      Inr (Map.empty(getDbPath ?E \<mapsto> Db empty_tables,
             wal_path (getDbPath ?E) \<mapsto> Data,
             shm_path (getDbPath ?E) \<mapsto> Data), empty_tables)"
    by (rule createDatabase_fresh) simp
  have b: "try_block ?E (streamParseFile ?E ex_path 5000) empty_tables = Inr st"
    using assms by (simp add: ex_env_facts)
  have "streamImport ?E ex_path Map.empty =
      (Returns (committed ?E),
       db_close ?E ((Map.empty(getDbPath ?E \<mapsto> Db empty_tables,
             wal_path (getDbPath ?E) \<mapsto> Data,
             shm_path (getDbPath ?E) \<mapsto> Data))(getDbPath ?E \<mapsto> Db (db st))))"
    using streamImport_ready[OF ex_env_facts(1) ex_env_facts(2)]
      import_into_store_commit[OF c b]
    by (simp add: finally_block_def)
  moreover have "db_close ?E ((Map.empty(getDbPath ?E \<mapsto> Db empty_tables,
             wal_path (getDbPath ?E) \<mapsto> Data,
             shm_path (getDbPath ?E) \<mapsto> Data))(getDbPath ?E \<mapsto> Db (db st))) =
        [getDbPath ?E \<mapsto> Db (db st)]"
    by (rule ext) (simp add: db_close_def existsSync_def)
  ultimately show ?thesis by (simp add: ex_env_facts)
qed

text \<open>
  The claim as it is worded fails in two places. It counts a message with a present
  but empty sender id as valid (only a missing sender id is listed), and the code
  drops it: the first run below holds one such message and the import commits no
  message row. And it says that a count of the drops is available: the last two runs
  are the same but for one dropped message, and \<open>streamImport\<close> returns the same
  value and leaves the same files for both. A drop shows in a line on the console and
  nowhere else.
\<close>

theorem dropped_messages_counterexample:
  "\<not> spec_invalid (ex_msg [] ''x'' 1) \<and>
   all_messages (fst ex_empty_id_run) = [ex_msg [] ''x'' 1] \<and>
   fst (streamImport (ex_env ex_empty_id_run no_fault) ex_path Map.empty) =
     Returns (committed (ex_env ex_empty_id_run no_fault)) \<and>
   snd (streamImport (ex_env ex_empty_id_run no_fault) ex_path Map.empty)
       (getDbPath (ex_env ex_empty_id_run no_fault)) = Some (Db empty_tables) \<and>
   length (filter js_invalid (all_messages (fst ex_no_name_run))) = 1 \<and>
   length (filter js_invalid (all_messages (fst ex_one_valid_run))) = 0 \<and>
   streamImport (ex_env ex_no_name_run no_fault) ex_path Map.empty =
     streamImport (ex_env ex_one_valid_run no_fault) ex_path Map.empty"
proof -
  let ?T = "\<lparr> meta = [],
       member = [\<lparr> member_id = 1, platform_id = ''p'', member_name = ''A'', nickname = None \<rparr>],
       member_name_history =
         [\<lparr> nh_id = 1, nh_member_id = 1, nh_name = ''A'', start_ts = 2, end_ts = None \<rparr>],
       message = [\<lparr> msg_id = 1, sender_id = 1, ts = 2, msg_type = 0,
                    msg_content = Some ''hi'' \<rparr>],
       member_seq = 1 \<rparr>"
  have a: "\<not> spec_invalid (ex_msg [] ''x'' 1) \<and>
   all_messages (fst ex_empty_id_run) = [ex_msg [] ''x'' 1] \<and>
   fst (streamImport (ex_env ex_empty_id_run no_fault) ex_path Map.empty) =
     Returns (committed (ex_env ex_empty_id_run no_fault)) \<and>
   snd (streamImport (ex_env ex_empty_id_run no_fault) ex_path Map.empty)
       (getDbPath (ex_env ex_empty_id_run no_fault)) = Some (Db empty_tables) \<and>
   length (filter js_invalid (all_messages (fst ex_no_name_run))) = 1 \<and>
   length (filter js_invalid (all_messages (fst ex_one_valid_run))) = 0"
    by code_simp
  have "case try_block (ex_env ex_no_name_run no_fault) ex_no_name_run empty_tables of
          Inl e \<Rightarrow> False | Inr st \<Rightarrow> db st = ?T"
    by code_simp
  then obtain s1 where
    1: "try_block (ex_env ex_no_name_run no_fault) ex_no_name_run empty_tables = Inr s1"
    and d1: "db s1 = ?T"
    by (auto split: sum.splits)
  have "case try_block (ex_env ex_one_valid_run no_fault) ex_one_valid_run empty_tables of
          Inl e \<Rightarrow> False | Inr st \<Rightarrow> db st = ?T"
    by code_simp
  then obtain s2 where
    2: "try_block (ex_env ex_one_valid_run no_fault) ex_one_valid_run empty_tables = Inr s2"
    and d2: "db s2 = ?T"
    by (auto split: sum.splits)
  have c: "committed (ex_env ex_no_name_run no_fault) =
           committed (ex_env ex_one_valid_run no_fault)"
    by (simp add: committed_def ex_env_def)
  have "streamImport (ex_env ex_no_name_run no_fault) ex_path Map.empty =
     streamImport (ex_env ex_one_valid_run no_fault) ex_path Map.empty"
    unfolding streamImport_ex_commits[OF 1] streamImport_ex_commits[OF 2] d1 d2 c ..
  with a show ?thesis by simp
qed

subsection \<open>The preview\<close>

lemma info_count:
  "i_messageCount (fold info_callback es s) = i_messageCount s + length (all_messages es)"
proof (induction es arbitrary: s)
  case Nil
  then show ?case by simp
next
  case (Cons e es)
  show ?case by (cases e) (simp_all add: Cons.IH)
qed

lemma streamParseFileInfo_count:
  assumes "detectFormat env filePath = Some f"
    and "statSync env filePath = Inr sz"
    and "streamParseFile env filePath (if sz > 100 * 1024 * 1024 then 2000 else 5000) =
           (events, None)"
  shows "\<exists>info. streamParseFileInfo env filePath = Returns info \<and>
           messageCount info = length (all_messages events)"
proof -
  obtain a b where f: "f = (a, b)" by (cases f)
  show ?thesis
    using assms unfolding f
    by (simp add: streamParseFileInfo_def Let_def info_count)
qed

text \<open>
  Claim C2, as the code has it. The preview adds the length of every batch to
  \<open>messageCount\<close>; the import writes a row only for a message that passes its checks.
  When both parses deliver the same messages (in whatever batches) and no statement
  fails, \<open>messageCount\<close> is the number of committed message rows plus the number of
  messages the import dropped; the two counts are equal when no message is dropped.
\<close>

theorem preview_count_is_rows_plus_dropped:
  assumes fmt: "detectFormat env filePath = Some f"
    and stat: "statSync env filePath = Inr sz"
    and preview: "streamParseFile env filePath
                    (if sz > 100 * 1024 * 1024 then 2000 else 5000) = (events', None)"
    and prep: "prepare env filePath fs = Ready actual tmp fs1"
    and fresh: "fs1 (getDbPath env) = None"
    and other: "tmp \<noteq> Some (getDbPath env)"
    and nf: "no_faults env"
    and parse: "streamParseFile env actual 5000 = (events, None)"
    and same: "all_messages events' = all_messages events"
  shows "\<exists>info t fs'.
           streamParseFileInfo env filePath = Returns info \<and>
           streamImport env filePath fs = (Returns (committed env), fs') \<and>
           fs' (getDbPath env) = Some (Db t) \<and>
           messageCount info =
             length (message t) + length (filter js_invalid (all_messages events)) \<and>
           (filter js_invalid (all_messages events) = [] \<longrightarrow>
              messageCount info = length (message t))"
proof -
  obtain info where i: "streamParseFileInfo env filePath = Returns info"
    and c: "messageCount info = length (all_messages events')"
    using streamParseFileInfo_count[OF fmt stat preview] by blast
  obtain st where st: "try_block env (events, None) empty_tables = Inr st"
    using try_block_total[OF nf] by blast
  then have body: "try_block env (streamParseFile env actual 5000) empty_tables = Inr st"
    using parse by simp
  from streamImport_commits[OF fmt prep fresh other body] obtain fs' where
    s: "streamImport env filePath fs = (Returns (committed env), fs')"
       "fs' (getDbPath env) = Some (Db (db st))"
    by blast
  have "length (all_messages events) =
      length (filter (\<lambda>m. \<not> js_invalid m) (all_messages events)) +
      length (filter js_invalid (all_messages events))"
    using sum_length_filter_compl[of js_invalid "all_messages events"] by simp
  then have m: "messageCount info =
      length (message (db st)) + length (filter js_invalid (all_messages events))"
    using c same try_block_counts(1)[OF st] by simp
  have k: "streamParseFileInfo env filePath = Returns info \<and>
        streamImport env filePath fs = (Returns (committed env), fs') \<and>
        fs' (getDbPath env) = Some (Db (db st)) \<and>
        messageCount info =
          length (message (db st)) + length (filter js_invalid (all_messages events)) \<and>
        (filter js_invalid (all_messages events) = [] \<longrightarrow>
           messageCount info = length (message (db st)))"
    using i s m by simp
  show ?thesis
    by (rule exI[where x = info], rule exI[where x = "db st"], rule exI[where x = fs'], rule k)
qed


theorem preview_count_is_rows_plus_dropped_witness:
  "streamParseFileInfo (ex_env ex_no_name_run no_fault) ex_path =
     Returns \<lparr> info_name = ''unknown group'', info_format = ''chatlab'',
               info_platform = ''qq'', messageCount = 2, memberCount = 1, fileSize = 10 \<rparr> \<and>
   fst (streamImport (ex_env ex_no_name_run no_fault) ex_path Map.empty) =
     Returns (committed (ex_env ex_no_name_run no_fault)) \<and>
   length (filter js_invalid (all_messages (fst ex_no_name_run))) = 1"
proof -
  let ?E = "ex_env ex_no_name_run no_fault"
  have p: "streamParseFile ?E ex_path 5000 = (fst ex_no_name_run, None)"
    by (simp add: ex_env_facts ex_no_name_run_def)
  have p': "streamParseFile ?E ex_path
      (if (10::nat) > 100 * 1024 * 1024 then 2000 else 5000) = (fst ex_no_name_run, None)"
    by (simp add: ex_env_facts ex_no_name_run_def)
  have v: "streamParseFileInfo ?E ex_path =
     Returns \<lparr> info_name = ''unknown group'', info_format = ''chatlab'',
               info_platform = ''qq'', messageCount = 2, memberCount = 1, fileSize = 10 \<rparr>"
    by (simp add: streamParseFileInfo_def ex_env_facts ex_no_name_run_def ex_msg_def)
  have n: "length (filter js_invalid (all_messages (fst ex_no_name_run))) = 1"
    by code_simp
  have fr: "Map.empty (getDbPath ?E) = None" by simp
  have ot: "None \<noteq> Some (getDbPath ?E)" by simp
  from preview_count_is_rows_plus_dropped[OF ex_env_facts(1) ex_env_facts(6) p'
      ex_env_facts(2) fr ot no_faults_ex p refl]
  obtain fs' where "streamImport ?E ex_path Map.empty = (Returns (committed ?E), fs')"
    by blast
  then have "fst (streamImport ?E ex_path Map.empty) = Returns (committed ?E)" by simp
  then show ?thesis using v n by simp
qed


text \<open>
  The claim as stated fails on a file that holds an invalid record: the parser delivers
  two messages, the first without a sender name; the preview counts two, the import
  commits one row.
\<close>

theorem preview_count_counterexample:
  "streamParseFileInfo (ex_env ex_no_name_run no_fault) ex_path =
     Returns \<lparr> info_name = ''unknown group'', info_format = ''chatlab'',
               info_platform = ''qq'', messageCount = 2, memberCount = 1, fileSize = 10 \<rparr> \<and>
   fst (streamImport (ex_env ex_no_name_run no_fault) ex_path Map.empty) =
     Returns (committed (ex_env ex_no_name_run no_fault)) \<and>
   snd (streamImport (ex_env ex_no_name_run no_fault) ex_path Map.empty)
       (getDbPath (ex_env ex_no_name_run no_fault)) =
     Some (Db \<lparr> meta = [],
       member = [\<lparr> member_id = 1, platform_id = ''p'', member_name = ''A'', nickname = None \<rparr>],
       member_name_history =
         [\<lparr> nh_id = 1, nh_member_id = 1, nh_name = ''A'', start_ts = 2, end_ts = None \<rparr>],
       message = [\<lparr> msg_id = 1, sender_id = 1, ts = 2, msg_type = 0,
                    msg_content = Some ''hi'' \<rparr>],
       member_seq = 1 \<rparr>)"
proof -
  let ?E = "ex_env ex_no_name_run no_fault"
  have a: "streamParseFileInfo ?E ex_path =
     Returns \<lparr> info_name = ''unknown group'', info_format = ''chatlab'',
               info_platform = ''qq'', messageCount = 2, memberCount = 1, fileSize = 10 \<rparr>"
    by (simp add: streamParseFileInfo_def ex_env_facts ex_no_name_run_def ex_msg_def)
  have b: "fst (streamImport ?E ex_path Map.empty) = Returns (committed ?E) \<and>
   snd (streamImport ?E ex_path Map.empty) (getDbPath ?E) =
     Some (Db \<lparr> meta = [],
       member = [\<lparr> member_id = 1, platform_id = ''p'', member_name = ''A'', nickname = None \<rparr>],
       member_name_history =
         [\<lparr> nh_id = 1, nh_member_id = 1, nh_name = ''A'', start_ts = 2, end_ts = None \<rparr>],
       message = [\<lparr> msg_id = 1, sender_id = 1, ts = 2, msg_type = 0,
                    msg_content = Some ''hi'' \<rparr>],
       member_seq = 1 \<rparr>)"
    by code_simp
  show ?thesis using a b by simp
qed

subsection \<open>One member row for each platform id\<close>

lemma insertMember_ids_set:
  "set (map platform_id (member (insertMember_sql pid nm nick t))) =
     insert pid (set (map platform_id (member t)))"
  by (auto simp: insertMember_sql_def)

lemma getMemberId_Some_in:
  "getMemberId_sql p t = Some i \<Longrightarrow> p \<in> set (map platform_id (member t))"
  by (auto simp: getMemberId_sql_def find_Some_iff)

lemma ensure_member_ids:
  assumes "ensure_member env pid nm nick st = Inr st'"
  shows "set (map platform_id (member (db st'))) =
           insert pid (set (map platform_id (member (db st))))"
  unfolding ensure_member_effect(1)[OF assms] by (rule insertMember_ids_set)

lemma import_message_ids:
  assumes ok: "members_ok st" and r: "import_message env msg st = Inr st'"
  shows "set (map platform_id (member (db st'))) =
           set (map platform_id (member (db st))) \<union>
           (if valid_message msg then {sender_of msg} else {})"
proof (cases "check_message msg")
  case (Inl w)
  then show ?thesis using r check_message_invalid[OF Inl]
    by (auto simp: import_message_invalid)
next
  case (Inr x)
  obtain pid nm t ty where x: "x = (pid, nm, t, ty)" by (cases x)
  note v = check_message_valid[OF Inr[unfolded x]]
  from import_message_valid[OF Inr[unfolded x] r] obtain st1 st2 i where
    1: "if memberIdMap st pid = None then ensure_member env pid nm None st = Inr st1
        else st1 = st"
    and 3: "exec env (insertMessage_sql i t ty (content msg)) st1 = Inr st2"
    and 4: "track_nickname env pid i nm t st2 = Inr st'"
    by blast
  have a: "set (map platform_id (member (db st1))) =
      insert pid (set (map platform_id (member (db st))))"
  proof (cases "memberIdMap st pid = None")
    case True
    then show ?thesis using 1 ensure_member_ids by simp
  next
    case False
    then obtain j where "memberIdMap st pid = Some j" by blast
    then have "getMemberId_sql pid (db st) = Some j" using ok by (simp add: members_ok_def)
    then have "pid \<in> set (map platform_id (member (db st)))" by (rule getMemberId_Some_in)
    then show ?thesis using 1 False by auto
  qed
  have b: "member (db st2) = member (db st1)"
    using 3 by (auto simp: exec_eq_Inr insertMessage_sql_def)
  show ?thesis using a b track_nickname_effect(1)[OF 4] v by simp
qed

lemma onMembers_ids:
  assumes "onMembers env ms st = Inr st'"
  shows "set (map platform_id (member (db st'))) =
           set (map platform_id (member (db st))) \<union> set (map platformId ms)"
  using assms
proof (induction ms arbitrary: st)
  case Nil
  then show ?case by simp
next
  case (Cons m ms)
  from Cons.prems obtain st1 where
    1: "ensure_member env (platformId m) (name m) (or_null (pm_nickname m)) st = Inr st1"
    and 2: "onMembers env ms st1 = Inr st'"
    by (auto simp: bindE_eq_Inr)
  show ?case using ensure_member_ids[OF 1] Cons.IH[OF 2] by auto
qed

lemma onMessageBatch_members_ok:
  "members_ok st \<Longrightarrow> onMessageBatch env msgs st = Inr st' \<Longrightarrow> members_ok st'"
  using callbacks_members_ok[of st env "[OnMessageBatch msgs]" st'] by simp

lemma onMessageBatch_ids:
  assumes "members_ok st" and "onMessageBatch env msgs st = Inr st'"
  shows "set (map platform_id (member (db st'))) =
           set (map platform_id (member (db st))) \<union>
           set (map sender_of (filter valid_message msgs))"
  using assms
proof (induction msgs arbitrary: st)
  case Nil
  then show ?case by simp
next
  case (Cons m ms)
  from Cons.prems(2) obtain st1 where
    1: "import_message env m st = Inr st1" and 2: "onMessageBatch env ms st1 = Inr st'"
    by (auto simp: bindE_eq_Inr)
  have ok1: "members_ok st1" using Cons.prems(1) 1 by (rule import_message_members_ok)
  show ?case using import_message_ids[OF Cons.prems(1) 1] Cons.IH[OF ok1 2] by auto
qed

lemma callbacks_ids:
  assumes "members_ok st" and "callbacks env es st = Inr st'"
  shows "set (map platform_id (member (db st'))) =
           set (map platform_id (member (db st))) \<union> referenced_ids es"
  using assms
proof (induction es arbitrary: st)
  case Nil
  then show ?case by simp
next
  case (Cons e es)
  from Cons.prems(2) obtain st1 where
    1: "callback env e st = Inr st1" and 2: "callbacks env es st1 = Inr st'"
    by (auto simp: bindE_eq_Inr)
  have ok1: "members_ok st1"
    using callbacks_members_ok[OF Cons.prems(1), of env "[e]" st1] 1 by simp
  note ih = Cons.IH[OF ok1 2]
  show ?case
  proof (cases e)
    case (OnProgress p)
    then show ?thesis using 1 ih by auto
  next
    case (OnMeta m)
    then have "member (db st1) = member (db st)"
      using 1 by (auto simp: onMeta_def bindE_eq_Inr exec_eq_Inr insertMeta_sql_def
          split: if_splits)
    then show ?thesis using OnMeta ih by simp
  next
    case (OnMembers ms)
    then show ?thesis using 1 onMembers_ids[of env ms st st1] ih by auto
  next
    case (OnMessageBatch msgs)
    then show ?thesis using 1 onMessageBatch_ids[OF Cons.prems(1), of env msgs st1] ih by auto
  qed
qed

lemma members_ok_start: "members_ok (start_state empty_tables)"
  by (simp add: members_ok_def start_state_def empty_tables_def)

lemma distinct_count_one:
  "distinct (map f xs) \<Longrightarrow> x \<in> set xs \<Longrightarrow> length (filter (\<lambda>y. f y = f x) xs) = 1"
proof (induction xs)
  case Nil
  then show ?case by simp
next
  case (Cons a xs)
  show ?case
  proof (cases "a = x")
    case True
    then have "f x \<notin> f ` set xs" using Cons.prems(1) by simp
    then have "\<forall>y\<in>set xs. f y \<noteq> f x" by (metis imageI)
    then have "filter (\<lambda>y. f y = f x) xs = []" by (simp add: filter_empty_conv)
    then show ?thesis using True by simp
  next
    case False
    then have "x \<in> set xs" using Cons.prems(2) by simp
    moreover have "f a \<noteq> f x" using Cons.prems(1) \<open>x \<in> set xs\<close> by auto
    ultimately show ?thesis using Cons.IH Cons.prems(1) by simp
  qed
qed

lemma try_block_members:
  assumes "try_block env (events, perr) empty_tables = Inr st"
  shows "distinct (map platform_id (member (db st)))"
    and "set (map platform_id (member (db st))) = referenced_ids events"
proof -
  from try_block_Inr[OF assms] obtain st1 st2 where
    1: "callbacks env events (start_state empty_tables) = Inr st1"
    and 2: "update_member_names env (nicknameTracker st1) st1 = Inr st2"
    and 3: "db st = db st2"
    by auto
  have ok1: "members_ok st1" using members_ok_start 1 by (rule callbacks_members_ok)
  note u = update_member_names_effect(1)[OF 2]
  show "distinct (map platform_id (member (db st)))"
    using ok1 u 3 by (simp add: members_ok_def)
  show "set (map platform_id (member (db st))) = referenced_ids events"
    using callbacks_ids[OF members_ok_start 1] u 3 by (simp add: start_state_fields)
qed

subsection \<open>Repeated senders are routed to the row that exists\<close>

lemma getMemberId_member_cong:
  "member t' = member t \<Longrightarrow> getMemberId_sql p t' = getMemberId_sql p t"
  by (simp add: getMemberId_sql_def)

lemma ensure_member_getMemberId_keep:
  assumes "getMemberId_sql p (db st) = Some i" and "ensure_member env pid nm nick st = Inr st'"
  shows "getMemberId_sql p (db st') = Some i"
  using assms(1) by (simp add: ensure_member_effect(4)[OF assms(2)] getMemberId_insert_keep)

lemma import_message_member_steps:
  assumes c: "check_message msg = Inr (pid, nm, t, ty)"
    and r: "import_message env msg st = Inr st'"
  shows "\<exists>st1 i. (if memberIdMap st pid = None then ensure_member env pid nm None st = Inr st1
                  else st1 = st) \<and>
           memberIdMap st1 pid = Some i \<and>
           member (db st') = member (db st1) \<and>
           message (db st') = message (db st1) @
             [\<lparr> msg_id = Suc (length (message (db st1))), sender_id = i, ts = t,
                msg_type = ty, msg_content = content msg \<rparr>]"
proof -
  from import_message_valid[OF c r] obtain st1 st2 i where
    1: "if memberIdMap st pid = None then ensure_member env pid nm None st = Inr st1
        else st1 = st"
    and 2: "memberIdMap st1 pid = Some i"
    and 3: "exec env (insertMessage_sql i t ty (content msg)) st1 = Inr st2"
    and 4: "track_nickname env pid i nm t st2 = Inr st'"
    by blast
  have "member (db st2) = member (db st1) \<and>
        message (db st2) = message (db st1) @
             [\<lparr> msg_id = Suc (length (message (db st1))), sender_id = i, ts = t,
                msg_type = ty, msg_content = content msg \<rparr>]"
    using 3 by (auto simp: exec_eq_Inr insertMessage_sql_def)
  then have k: "member (db st') = member (db st1) \<and>
        message (db st') = message (db st1) @
             [\<lparr> msg_id = Suc (length (message (db st1))), sender_id = i, ts = t,
                msg_type = ty, msg_content = content msg \<rparr>]"
    using track_nickname_effect(1,2)[OF 4] by simp
  show ?thesis
    by (rule exI[where x = st1], rule exI[where x = i]) (intro conjI 1 2 k[THEN conjunct1] k[THEN conjunct2])
qed

lemma import_message_getMemberId_keep:
  assumes g: "getMemberId_sql p (db st) = Some j" and r: "import_message env msg st = Inr st'"
  shows "getMemberId_sql p (db st') = Some j"
proof (cases "check_message msg")
  case (Inl w)
  have "st' = st\<lparr> warnings := warnings st @ [w] \<rparr>"
    using r by (simp add: import_message_invalid[OF Inl])
  then show ?thesis using g by simp
next
  case (Inr x)
  obtain pid nm t ty where x: "x = (pid, nm, t, ty)" by (cases x)
  from import_message_member_steps[OF Inr[unfolded x] r] obtain st1 i where
    1: "if memberIdMap st pid = None then ensure_member env pid nm None st = Inr st1
        else st1 = st"
    and m: "member (db st') = member (db st1)"
    by blast
  have "getMemberId_sql p (db st1) = Some j"
  proof (cases "memberIdMap st pid = None")
    case True
    then have "ensure_member env pid nm None st = Inr st1" using 1 by simp
    with g show ?thesis by (rule ensure_member_getMemberId_keep)
  next
    case False
    then show ?thesis using 1 g by simp
  qed
  then show ?thesis using getMemberId_member_cong[OF m] by simp
qed

lemma onMeta_member:
  "onMeta env m st = Inr st' \<Longrightarrow>
   member (db st') = member (db st) \<and> message (db st') = message (db st)"
  by (auto simp: onMeta_def bindE_eq_Inr exec_eq_Inr insertMeta_sql_def split: if_splits)

lemma callbacks_getMemberId_keep:
  assumes "getMemberId_sql p (db st) = Some j" and "callbacks env es st = Inr st'"
  shows "getMemberId_sql p (db st') = Some j"
proof (rule callbacks_preserves[where I = "\<lambda>s. getMemberId_sql p (db s) = Some j"
      and env = env, OF _ _ _ _ assms])
  fix m s s' assume "getMemberId_sql p (db s) = Some j" "onMeta env m s = Inr s'"
  then show "getMemberId_sql p (db s') = Some j"
    using onMeta_member[of env m s s'] getMemberId_member_cong[of "db s'" "db s" p] by simp
next
  fix pid nm nick s s'
  assume "getMemberId_sql p (db s) = Some j" "ensure_member env pid nm nick s = Inr s'"
  then show "getMemberId_sql p (db s') = Some j" by (rule ensure_member_getMemberId_keep)
next
  fix msg s s'
  assume "getMemberId_sql p (db s) = Some j" "import_message env msg s = Inr s'"
  then show "getMemberId_sql p (db s') = Some j" by (rule import_message_getMemberId_keep)
next
  fix q s assume "getMemberId_sql p (db s) = Some j"
  then show "getMemberId_sql p (db (s\<lparr>forwarded := forwarded s @ [q]\<rparr>)) = Some j" by simp
qed

lemma import_message_senders:
  assumes ok: "members_ok st" and r: "import_message env msg st = Inr st'"
  shows "map (\<lambda>r. Some (sender_id r)) (message (db st')) =
           map (\<lambda>r. Some (sender_id r)) (message (db st)) @
           (if valid_message msg then [getMemberId_sql (sender_of msg) (db st')] else []) \<and>
         (valid_message msg \<longrightarrow> getMemberId_sql (sender_of msg) (db st') \<noteq> None)"
proof (cases "check_message msg")
  case (Inl w)
  have nv: "\<not> valid_message msg" using check_message_invalid[OF Inl] .
  have "st' = st\<lparr> warnings := warnings st @ [w] \<rparr>"
    using r by (simp add: import_message_invalid[OF Inl])
  then have "message (db st') = message (db st)" by simp
  then show ?thesis using nv by simp
next
  case (Inr x)
  obtain pid nm t ty where x: "x = (pid, nm, t, ty)" by (cases x)
  note v = check_message_valid[OF Inr[unfolded x]]
  from import_message_member_steps[OF Inr[unfolded x] r] obtain st1 i where
    1: "if memberIdMap st pid = None then ensure_member env pid nm None st = Inr st1
        else st1 = st"
    and 2: "memberIdMap st1 pid = Some i"
    and m: "member (db st') = member (db st1)"
    and g: "message (db st') = message (db st1) @
           [\<lparr> msg_id = Suc (length (message (db st1))), sender_id = i, ts = t,
              msg_type = ty, msg_content = content msg \<rparr>]"
    by blast
  have ok1: "members_ok st1" using 1 ok ensure_member_members_ok
    by (cases "memberIdMap st pid = None") auto
  have a: "message (db st1) = message (db st)"
  proof (cases "memberIdMap st pid = None")
    case True
    then have "ensure_member env pid nm None st = Inr st1" using 1 by simp
    from ensure_member_effect(4)[OF this] show ?thesis by (simp add: insertMember_sql_def)
  next
    case False
    then show ?thesis using 1 by simp
  qed
  have "getMemberId_sql pid (db st1) = Some i" using ok1 2 by (simp add: members_ok_def)
  then have k: "getMemberId_sql pid (db st') = Some i"
    using getMemberId_member_cong[OF m] by simp
  have vm: "valid_message msg" and so: "sender_of msg = pid" using v by simp_all
  show ?thesis unfolding g a so using vm k by simp
qed


lemma onMessageBatch_getMemberId_keep:
  assumes "getMemberId_sql p (db st) = Some j" and "onMessageBatch env msgs st = Inr st'"
  shows "getMemberId_sql p (db st') = Some j"
  using callbacks_getMemberId_keep[OF assms(1), of env "[OnMessageBatch msgs]" st'] assms(2)
  by simp

lemma senders_keep:
  assumes a: "\<forall>m\<in>set ms. getMemberId_sql (sender_of m) (db st) \<noteq> None"
    and k: "\<And>p j. getMemberId_sql p (db st) = Some j \<Longrightarrow> getMemberId_sql p (db st') = Some j"
  shows "map (\<lambda>m. getMemberId_sql (sender_of m) (db st')) ms =
           map (\<lambda>m. getMemberId_sql (sender_of m) (db st)) ms \<and>
         (\<forall>m\<in>set ms. getMemberId_sql (sender_of m) (db st') \<noteq> None)"
  using a
proof (induction ms)
  case Nil
  then show ?case by simp
next
  case (Cons m ms)
  then obtain j where j: "getMemberId_sql (sender_of m) (db st) = Some j" by auto
  have "getMemberId_sql (sender_of m) (db st') = Some j" using j by (rule k)
  then show ?case using Cons j by simp
qed

lemma onMessageBatch_senders:
  assumes "members_ok st" and "onMessageBatch env msgs st = Inr st'"
  shows "map (\<lambda>r. Some (sender_id r)) (message (db st')) =
           map (\<lambda>r. Some (sender_id r)) (message (db st)) @
           map (\<lambda>m. getMemberId_sql (sender_of m) (db st')) (filter valid_message msgs) \<and>
         (\<forall>m\<in>set (filter valid_message msgs).
            getMemberId_sql (sender_of m) (db st') \<noteq> None)"
  using assms
proof (induction msgs arbitrary: st)
  case Nil
  then show ?case by simp
next
  case (Cons m ms)
  from Cons.prems(2) obtain st1 where
    1: "import_message env m st = Inr st1" and 2: "onMessageBatch env ms st1 = Inr st'"
    by (auto simp: bindE_eq_Inr)
  have ok1: "members_ok st1" using Cons.prems(1) 1 by (rule import_message_members_ok)
  note s = import_message_senders[OF Cons.prems(1) 1]
  note ih = Cons.IH[OF ok1 2]
  show ?case
  proof (cases "valid_message m")
    case False
    then show ?thesis using s ih by simp
  next
    case True
    then obtain j where j: "getMemberId_sql (sender_of m) (db st1) = Some j" using s by auto
    have j': "getMemberId_sql (sender_of m) (db st') = Some j"
      using j 2 by (rule onMessageBatch_getMemberId_keep)
    have "map (\<lambda>r. Some (sender_id r)) (message (db st1)) =
           map (\<lambda>r. Some (sender_id r)) (message (db st)) @ [Some j]"
      using s True j by simp
    then show ?thesis using ih True j' by simp
  qed
qed

lemma onMembers_member_message:
  assumes "onMembers env ms st = Inr st'"
  shows "message (db st') = message (db st)"
  using onMembers_counts[OF assms] by simp

lemma callbacks_senders:
  assumes "members_ok st" and "callbacks env es st = Inr st'"
  shows "map (\<lambda>r. Some (sender_id r)) (message (db st')) =
           map (\<lambda>r. Some (sender_id r)) (message (db st)) @
           map (\<lambda>m. getMemberId_sql (sender_of m) (db st'))
             (filter valid_message (all_messages es)) \<and>
         (\<forall>m\<in>set (filter valid_message (all_messages es)).
            getMemberId_sql (sender_of m) (db st') \<noteq> None)"
  using assms
proof (induction es arbitrary: st)
  case Nil
  then show ?case by simp
next
  case (Cons e es)
  from Cons.prems(2) obtain st1 where
    1: "callback env e st = Inr st1" and 2: "callbacks env es st1 = Inr st'"
    by (auto simp: bindE_eq_Inr)
  have ok1: "members_ok st1"
    using callbacks_members_ok[OF Cons.prems(1), of env "[e]" st1] 1 by simp
  note ih = Cons.IH[OF ok1 2]
  show ?case
  proof (cases e)
    case (OnProgress p)
    then show ?thesis using 1 ih by auto
  next
    case (OnMeta m)
    then have "message (db st1) = message (db st)"
      using 1 onMeta_member[of env m st st1] by simp
    then show ?thesis using OnMeta ih by simp
  next
    case (OnMembers ms)
    then have "message (db st1) = message (db st)"
      using 1 onMembers_member_message[of env ms st st1] by simp
    then show ?thesis using OnMembers ih by simp
  next
    case (OnMessageBatch batch)
    then have b: "onMessageBatch env batch st = Inr st1" using 1 by simp
    note s = onMessageBatch_senders[OF Cons.prems(1) b]
    have k: "\<And>p j. getMemberId_sql p (db st1) = Some j \<Longrightarrow>
                   getMemberId_sql p (db st') = Some j"
      using 2 by (rule callbacks_getMemberId_keep[rotated])
    note sk = senders_keep[of "filter valid_message batch" st1 st', OF s[THEN conjunct2] k]
    have "map (\<lambda>r. Some (sender_id r)) (message (db st')) =
           (map (\<lambda>r. Some (sender_id r)) (message (db st)) @
            map (\<lambda>m. getMemberId_sql (sender_of m) (db st')) (filter valid_message batch)) @
           map (\<lambda>m. getMemberId_sql (sender_of m) (db st'))
             (filter valid_message (all_messages es))"
      using s[THEN conjunct1] sk[THEN conjunct1] ih[THEN conjunct1] by simp
    then show ?thesis using OnMessageBatch sk[THEN conjunct2] ih[THEN conjunct2] by auto
  qed
qed

lemma try_block_senders:
  assumes "try_block env (events, perr) empty_tables = Inr st"
  shows "map (\<lambda>r. Some (sender_id r)) (message (db st)) =
           map (\<lambda>m. getMemberId_sql (sender_of m) (db st))
             (filter valid_message (all_messages events))"
proof -
  from try_block_Inr[OF assms] obtain st1 st2 where
    1: "callbacks env events (start_state empty_tables) = Inr st1"
    and 2: "update_member_names env (nicknameTracker st1) st1 = Inr st2"
    and 3: "db st = db st2"
    by auto
  note c = callbacks_senders[OF members_ok_start 1]
  have g: "\<And>p. getMemberId_sql p (db st) = getMemberId_sql p (db st1)"
    using update_member_names_getMemberId[OF 2] 3 by simp
  have m: "message (db st) = message (db st1)"
    using update_member_names_effect(4)[OF 2] 3 by simp
  show ?thesis using c[THEN conjunct1] by (simp add: g m start_state_fields)
qed

text \<open>
  Claim C9. After a committed import into a fresh store, the member table holds every
  platform id at most once, and exactly once each platform id that the member lists
  or the senders of the imported messages refer to, however often they do. The
  \<open>sender_id\<close> of each message row is the id of the member row that carries the
  platform id of its sender: a sender that was seen before is routed to the row that
  exists.
\<close>

theorem member_upsert_idempotent:
  assumes fmt: "detectFormat env filePath = Some f"
    and prep: "prepare env filePath fs = Ready actual tmp fs1"
    and fresh: "fs1 (getDbPath env) = None"
    and other: "tmp \<noteq> Some (getDbPath env)"
    and body: "try_block env (streamParseFile env actual 5000) empty_tables = Inr st"
  shows "\<exists>fs'. streamImport env filePath fs = (Returns (committed env), fs') \<and>
           fs' (getDbPath env) = Some (Db (db st)) \<and>
           distinct (map platform_id (member (db st))) \<and>
           (\<forall>p. length (filter (\<lambda>r. platform_id r = p) (member (db st))) =
                 (if p \<in> referenced_ids (fst (streamParseFile env actual 5000))
                  then 1 else 0)) \<and>
           map (\<lambda>r. Some (sender_id r)) (message (db st)) =
             map (\<lambda>m. getMemberId_sql (sender_of m) (db st))
               (filter valid_message (all_messages (fst (streamParseFile env actual 5000))))"
proof -
  obtain events perr where p: "streamParseFile env actual 5000 = (events, perr)"
    by (cases "streamParseFile env actual 5000")
  note m = try_block_members[OF body[unfolded p]]
  note sd = try_block_senders[OF body[unfolded p]]
  have cnt: "\<And>p. length (filter (\<lambda>r. platform_id r = p) (member (db st))) =
      (if p \<in> referenced_ids events then 1 else 0)"
  proof -
    fix p
    show "length (filter (\<lambda>r. platform_id r = p) (member (db st))) =
      (if p \<in> referenced_ids events then 1 else 0)"
    proof (cases "p \<in> referenced_ids events")
      case True
      then have "p \<in> platform_id ` set (member (db st))" using m(2) by simp
      then obtain r where r: "r \<in> set (member (db st))" "platform_id r = p"
        by (auto simp: image_iff)
      from distinct_count_one[OF m(1) r(1)] show ?thesis using True r(2) by simp
    next
      case False
      then have "p \<notin> platform_id ` set (member (db st))" using m(2) by simp
      then have "\<forall>r\<in>set (member (db st)). platform_id r \<noteq> p" by (metis imageI)
      then show ?thesis using False by (simp add: filter_empty_conv)
    qed
  qed
  from streamImport_commits[OF fmt prep fresh other body] obtain fs' where
    "streamImport env filePath fs = (Returns (committed env), fs')"
    "fs' (getDbPath env) = Some (Db (db st))"
    by blast
  then show ?thesis using m(1) cnt sd p by auto
qed

theorem member_upsert_idempotent_witness:
  "fst (streamImport (ex_env ex_members_run no_fault) ex_path Map.empty) =
     Returns (committed (ex_env ex_members_run no_fault)) \<and>
   (case snd (streamImport (ex_env ex_members_run no_fault) ex_path Map.empty)
           (getDbPath (ex_env ex_members_run no_fault)) of
      Some (Db t) \<Rightarrow> member t | _ \<Rightarrow> []) =
     [\<lparr> member_id = 1, platform_id = ''p'', member_name = ''A'', nickname = None \<rparr>,
      \<lparr> member_id = 3, platform_id = ''q'', member_name = ''Q'', nickname = None \<rparr>] \<and>
   (case snd (streamImport (ex_env ex_members_run no_fault) ex_path Map.empty)
           (getDbPath (ex_env ex_members_run no_fault)) of
      Some (Db t) \<Rightarrow> map sender_id (message t) | _ \<Rightarrow> []) = [1, 3, 1]"
proof -
  let ?E = "ex_env ex_members_run no_fault"
  have "case try_block ?E (streamParseFile ?E ex_path 5000) empty_tables of
          Inl e \<Rightarrow> False | Inr st \<Rightarrow> True"
    by code_simp
  then obtain st where
    b: "try_block ?E (streamParseFile ?E ex_path 5000) empty_tables = Inr st"
    by (auto split: sum.splits)
  have v: "(case snd (streamImport ?E ex_path Map.empty) (getDbPath ?E) of
      Some (Db t) \<Rightarrow> member t | _ \<Rightarrow> []) =
     [\<lparr> member_id = 1, platform_id = ''p'', member_name = ''A'', nickname = None \<rparr>,
      \<lparr> member_id = 3, platform_id = ''q'', member_name = ''Q'', nickname = None \<rparr>]"
    by code_simp
  have w: "(case snd (streamImport ?E ex_path Map.empty) (getDbPath ?E) of
      Some (Db t) \<Rightarrow> map sender_id (message t) | _ \<Rightarrow> []) = [1, 3, 1]"
    by code_simp
  have fr: "Map.empty (getDbPath ?E) = None" by simp
  have ot: "None \<noteq> Some (getDbPath ?E)" by simp
  from member_upsert_idempotent[OF ex_env_facts(1) ex_env_facts(2) fr ot b]
  obtain fs' where "streamImport ?E ex_path Map.empty = (Returns (committed ?E), fs')"
    by blast
  then have "fst (streamImport ?E ex_path Map.empty) = Returns (committed ?E)" by simp
  then show ?thesis using v w by simp
qed

subsection \<open>Contiguous intervals\<close>

lemma close_interval_fields [simp]:
  "nh_member_id (close_interval t i r) = nh_member_id r"
  "start_ts (close_interval t i r) = start_ts r"
  "nh_name (close_interval t i r) = nh_name r"
  by (simp_all add: close_interval_def)

lemma close_interval_other: "nh_member_id r \<noteq> i \<Longrightarrow> close_interval t i r = r"
  by (simp add: close_interval_def)

lemma close_interval_closed: "end_ts r \<noteq> None \<Longrightarrow> close_interval t i r = r"
  by (simp add: close_interval_def)

lemma contiguous_close_append:
  assumes "rs \<noteq> []" and "contiguous rs" and "\<forall>r\<in>set rs. nh_member_id r = i"
    and "start_ts n = t" and "end_ts n = None"
  shows "contiguous (map (close_interval t i) rs @ [n])"
  using assms
proof (induction rs rule: contiguous.induct)
  case 1
  then show ?case by simp
next
  case (2 r)
  then show ?case by (simp add: close_interval_def)
next
  case (3 r r' rs)
  have "close_interval t i r = r" using "3.prems"(2) by (simp add: close_interval_closed)
  moreover have "contiguous (map (close_interval t i) (r' # rs) @ [n])"
    using "3.IH" "3.prems" by simp
  ultimately show ?case using "3.prems"(2) by simp
qed

lemma contiguous_one_open:
  "rs \<noteq> [] \<Longrightarrow> contiguous rs \<Longrightarrow> length (open_rows rs) = 1"
proof (induction rs rule: contiguous.induct)
  case 1
  then show ?case by simp
next
  case (2 r)
  then show ?case by (simp add: open_rows_def)
next
  case (3 r r' rs)
  then show ?case by (simp add: open_rows_def)
qed

lemma rows_of_append:
  "rows_of j (t\<lparr> member_name_history := h @ [n] \<rparr>) =
     filter (\<lambda>r. nh_member_id r = j) h @ (if nh_member_id n = j then [n] else [])"
  by (simp add: rows_of_def)

lemma filter_close_other:
  "j \<noteq> i \<Longrightarrow> filter (\<lambda>r. nh_member_id r = j) (map (close_interval t i) h) =
     filter (\<lambda>r. nh_member_id r = j) h"
proof (induction h)
  case Nil
  then show ?case by simp
next
  case (Cons r h)
  then show ?case by (cases "nh_member_id r = i") (simp_all add: close_interval_other)
qed

lemma filter_close_same:
  "filter (\<lambda>r. nh_member_id r = j) (map (close_interval t i) h) =
     map (close_interval t i) (filter (\<lambda>r. nh_member_id r = j) h)"
  by (induction h) simp_all

subsection \<open>The history invariant\<close>

lemma members_ok_inj:
  assumes "members_ok st" and "memberIdMap st p = Some i" and "memberIdMap st q = Some i"
  shows "p = q"
proof -
  let ?ms = "member (db st)"
  have d: "distinct (map platform_id ?ms)" and ids: "distinct (map member_id ?ms)"
    using assms(1) by (simp_all add: members_ok_def)
  have "map_option member_id (find (\<lambda>r. platform_id r = p) ?ms) = Some i"
    using assms by (simp add: members_ok_def getMemberId_sql_def)
  then obtain r where r: "r \<in> set ?ms" "platform_id r = p" "member_id r = i"
    unfolding getMemberId_Some_iff[OF d] by blast
  have "map_option member_id (find (\<lambda>r. platform_id r = q) ?ms) = Some i"
    using assms by (simp add: members_ok_def getMemberId_sql_def)
  then obtain s where s: "s \<in> set ?ms" "platform_id s = q" "member_id s = i"
    unfolding getMemberId_Some_iff[OF d] by blast
  have "r = s" using ids r(1,3) s(1,3) by (auto simp: distinct_map inj_on_def)
  then show ?thesis using r(2) s(2) by simp
qed

lemma ensure_member_history_ok:
  assumes ok: "members_ok st" and h: "history_ok st"
    and r: "ensure_member env pid nm nick st = Inr st'"
  shows "history_ok st'"
proof -
  note e = ensure_member_effect[OF r]
  have hist: "member_name_history (db st') = member_name_history (db st)"
    by (simp add: e(4) insertMember_sql_def)
  have rows: "\<And>i. rows_of i (db st') = rows_of i (db st)" by (simp add: rows_of_def hist)
  have tr: "\<And>p. tracked st' p = tracked st p" by (simp add: tracked_def e(5))
  have same: "\<And>p. tracked st p \<Longrightarrow> memberIdMap st' p = memberIdMap st p"
  proof -
    fix p assume t: "tracked st p"
    then obtain j where j: "memberIdMap st p = Some j" using h by (auto simp: history_ok_def)
    show "memberIdMap st' p = memberIdMap st p"
    proof (cases "p = pid")
      case True
      have "getMemberId_sql pid (db st) = Some j" using ok j True by (simp add: members_ok_def)
      then have "getMemberId_sql pid (db st') = Some j"
        by (simp add: e(4) getMemberId_insert_keep)
      then show ?thesis using True j by (simp add: e(2))
    next
      case False
      then show ?thesis by (simp add: e(2))
    qed
  qed
  show ?thesis
    unfolding history_ok_def
  proof (intro conjI allI impI)
    fix p assume "tracked st' p"
    then have "tracked st p" by (simp add: tr)
    then show "memberIdMap st' p \<noteq> None"
      using same h by (auto simp: history_ok_def)
  next
    fix i assume a: "\<forall>p. tracked st' p \<longrightarrow> memberIdMap st' p \<noteq> Some i"
    have "\<forall>p. tracked st p \<longrightarrow> memberIdMap st p \<noteq> Some i"
      using a same by (auto simp: tr)
    then show "rows_of i (db st') = []" using h by (simp add: rows history_ok_def)
  next
    fix p cur seen i
    assume a: "map_of (nicknameTracker st') p = Some (cur, seen)" "memberIdMap st' p = Some i"
    then have t: "tracked st p" by (simp add: tracked_def e(5))
    have b: "map_of (nicknameTracker st) p = Some (cur, seen)" "memberIdMap st p = Some i"
      using a same[OF t] by (simp_all add: e(5))
    then have c: "rows_of i (db st) \<noteq> [] \<and> contiguous (rows_of i (db st)) \<and>
      nh_name (last (rows_of i (db st))) = cur"
      using h unfolding history_ok_def by blast
    show "rows_of i (db st') \<noteq> []" using c by (simp add: rows)
    show "contiguous (rows_of i (db st'))" using c by (simp add: rows)
    show "nh_name (last (rows_of i (db st'))) = cur" using c by (simp add: rows)
  qed
qed

lemma track_nickname_history_ok:
  assumes ok: "members_ok st" and h: "history_ok st"
    and m: "memberIdMap st pid = Some i"
    and r: "track_nickname env pid i nm t st = Inr st'"
  shows "history_ok st'"
proof -
  note e = track_nickname_effect[OF r]
  let ?h = "member_name_history (db st)"
  let ?n = "\<lparr> nh_id = Suc (length ?h), nh_member_id = i, nh_name = nm,
              start_ts = t, end_ts = None \<rparr>"
  have tr: "\<And>p. tracked st' p = (p = pid \<or> tracked st p)"
    by (simp add: tracked_def e(6))
  have inj: "\<And>p. memberIdMap st p = Some i \<Longrightarrow> p = pid"
    using members_ok_inj[OF ok _ m] by blast
  have O: "\<And>j. j \<noteq> i \<Longrightarrow> rows_of j (db st') = rows_of j (db st)"
  proof -
    fix j :: nat assume ji: "j \<noteq> i"
    show "rows_of j (db st') = rows_of j (db st)"
    proof (cases "map_of (nicknameTracker st) pid")
      case None
      then show ?thesis using ji by (simp add: rows_of_def e(7))
    next
      case (Some a)
      obtain cur seen where a: "a = (cur, seen)" by (cases a)
      show ?thesis using Some a ji
        by (simp add: rows_of_def e(7) filter_close_other)
    qed
  qed
  have R: "rows_of i (db st') \<noteq> [] \<and> contiguous (rows_of i (db st')) \<and>
           nh_name (last (rows_of i (db st'))) = nm"
  proof (cases "map_of (nicknameTracker st) pid")
    case None
    then have "\<not> tracked st pid" by (simp add: tracked_def)
    then have "\<forall>p. tracked st p \<longrightarrow> memberIdMap st p \<noteq> Some i" using inj by blast
    then have "rows_of i (db st) = []" using h by (simp add: history_ok_def)
    then have "rows_of i (db st') = [?n]" using None by (simp add: rows_of_def e(7))
    then show ?thesis by simp
  next
    case (Some a)
    obtain cur seen where a: "a = (cur, seen)" by (cases a)
    have c: "rows_of i (db st) \<noteq> []" "contiguous (rows_of i (db st))"
      "nh_name (last (rows_of i (db st))) = cur"
      using h Some a m unfolding history_ok_def by blast+
    show ?thesis
    proof (cases "cur = nm")
      case True
      then have "rows_of i (db st') = rows_of i (db st)"
        using Some a by (simp add: rows_of_def e(7))
      then show ?thesis using c True by simp
    next
      case False
      then have eq: "rows_of i (db st') = map (close_interval t i) (rows_of i (db st)) @ [?n]"
        using Some a by (simp add: rows_of_def e(7) filter_close_same)
      have "\<forall>r\<in>set (rows_of i (db st)). nh_member_id r = i" by (simp add: rows_of_def)
      then have "contiguous (map (close_interval t i) (rows_of i (db st)) @ [?n])"
        using contiguous_close_append[OF c(1) c(2)] by simp
      then show ?thesis by (simp add: eq)
    qed
  qed
  show ?thesis
    unfolding history_ok_def
  proof (intro conjI allI impI)
    fix p assume "tracked st' p"
    then show "memberIdMap st' p \<noteq> None"
      using m h by (auto simp: tr e(4) history_ok_def)
  next
    fix j assume a: "\<forall>p. tracked st' p \<longrightarrow> memberIdMap st' p \<noteq> Some j"
    then have ji: "j \<noteq> i" using m by (auto simp: tr e(4))
    have "\<forall>p. tracked st p \<longrightarrow> memberIdMap st p \<noteq> Some j"
      using a by (auto simp: tr e(4))
    then have "rows_of j (db st) = []" using h by (simp add: history_ok_def)
    then show "rows_of j (db st') = []" using O[OF ji] by simp
  next
    fix p cur seen j
    assume a: "map_of (nicknameTracker st') p = Some (cur, seen)" "memberIdMap st' p = Some j"
    have "rows_of j (db st') \<noteq> [] \<and> contiguous (rows_of j (db st')) \<and>
          nh_name (last (rows_of j (db st'))) = cur"
    proof (cases "p = pid")
      case True
      then have "cur = nm" "j = i" using a m by (simp_all add: e(6) e(4))
      then show ?thesis using R by simp
    next
      case False
      then have b: "map_of (nicknameTracker st) p = Some (cur, seen)" "memberIdMap st p = Some j"
        using a by (simp_all add: e(6) e(4))
      then have ji: "j \<noteq> i" using inj False by blast
      have "rows_of j (db st) \<noteq> [] \<and> contiguous (rows_of j (db st)) \<and>
          nh_name (last (rows_of j (db st))) = cur"
        using h b unfolding history_ok_def by blast
      then show ?thesis using O[OF ji] by simp
    qed
    then show "rows_of j (db st') \<noteq> []" "contiguous (rows_of j (db st'))"
      "nh_name (last (rows_of j (db st'))) = cur"
      by simp_all
  qed
qed

lemma history_ok_frame:
  assumes "nicknameTracker st' = nicknameTracker st" and "memberIdMap st' = memberIdMap st"
    and "member_name_history (db st') = member_name_history (db st)"
  shows "history_ok st' = history_ok st"
  by (simp add: history_ok_def tracked_def rows_of_def assms)

lemma members_ok_frame:
  assumes "memberIdMap st' = memberIdMap st" and "member (db st') = member (db st)"
    and "member_seq (db st') = member_seq (db st)"
  shows "members_ok st' = members_ok st"
  by (simp add: members_ok_def getMemberId_sql_def assms)

lemma exec_history_ok:
  assumes "history_ok st" and "exec env f st = Inr st'"
    and "\<And>t. member_name_history (f t) = member_name_history t"
  shows "history_ok st'"
proof -
  have "st' = st\<lparr> stmts := Suc (stmts st), db := f (db st) \<rparr>"
    using assms(2) by (simp add: exec_eq_Inr)
  then have "history_ok st' = history_ok st"
    by (intro history_ok_frame) (simp_all add: assms(3))
  then show ?thesis using assms(1) by simp
qed

lemma import_message_both_ok:
  assumes ok: "members_ok st \<and> history_ok st" and r: "import_message env msg st = Inr st'"
  shows "members_ok st' \<and> history_ok st'"
proof (cases "check_message msg")
  case (Inl w)
  then have s': "st' = st\<lparr> warnings := warnings st @ [w] \<rparr>"
    using r by (simp add: import_message_invalid)
  have "history_ok st' = history_ok st" unfolding s' by (intro history_ok_frame) simp_all
  moreover have "members_ok st' = members_ok st"
    unfolding s' by (intro members_ok_frame) simp_all
  ultimately show ?thesis using ok by simp
next
  case (Inr x)
  obtain pid nm t ty where x: "x = (pid, nm, t, ty)" by (cases x)
  from import_message_valid[OF Inr[unfolded x] r] obtain st1 st2 i where
    1: "if memberIdMap st pid = None then ensure_member env pid nm None st = Inr st1
        else st1 = st"
    and 2: "memberIdMap st1 pid = Some i"
    and 3: "exec env (insertMessage_sql i t ty (content msg)) st1 = Inr st2"
    and 4: "track_nickname env pid i nm t st2 = Inr st'"
    by blast
  have ok1: "members_ok st1 \<and> history_ok st1"
    using 1 ok ensure_member_members_ok ensure_member_history_ok
    by (cases "memberIdMap st pid = None") auto
  have m2: "memberIdMap st2 pid = Some i" using 2 3 by (auto simp: exec_eq_Inr)
  have ok2: "members_ok st2" using ok1 3
    by (auto intro: exec_members_ok simp: insertMessage_sql_def)
  have h2: "history_ok st2" using ok1 3
    by (auto intro: exec_history_ok simp: insertMessage_sql_def)
  show ?thesis
    using track_nickname_members_ok[OF ok2 4] track_nickname_history_ok[OF ok2 h2 m2 4]
    by simp
qed

lemma callbacks_both_ok:
  assumes "members_ok st \<and> history_ok st" and "callbacks env es st = Inr st'"
  shows "members_ok st' \<and> history_ok st'"
proof (rule callbacks_preserves[where I = "\<lambda>s. members_ok s \<and> history_ok s" and env = env,
      OF _ _ _ _ assms])
  fix m s s' assume a: "members_ok s \<and> history_ok s" "onMeta env m s = Inr s'"
  have "nicknameTracker s' = nicknameTracker s \<and> memberIdMap s' = memberIdMap s \<and>
        member_name_history (db s') = member_name_history (db s)"
    using a(2) by (auto simp: onMeta_def bindE_eq_Inr exec_eq_Inr insertMeta_sql_def
        split: if_splits)
  then have "history_ok s' = history_ok s" by (intro history_ok_frame) simp_all
  then show "members_ok s' \<and> history_ok s'" using a onMeta_members_ok by blast
next
  fix pid nm nick s s'
  assume "members_ok s \<and> history_ok s" "ensure_member env pid nm nick s = Inr s'"
  then show "members_ok s' \<and> history_ok s'"
    using ensure_member_members_ok ensure_member_history_ok by blast
next
  fix msg s s'
  assume "members_ok s \<and> history_ok s" "import_message env msg s = Inr s'"
  then show "members_ok s' \<and> history_ok s'" by (rule import_message_both_ok)
next
  fix p s assume "members_ok s \<and> history_ok s"
  moreover have "history_ok (s\<lparr>forwarded := forwarded s @ [p]\<rparr>) = history_ok s"
    by (intro history_ok_frame) simp_all
  moreover have "members_ok (s\<lparr>forwarded := forwarded s @ [p]\<rparr>) = members_ok s"
    by (intro members_ok_frame) simp_all
  ultimately show "members_ok (s\<lparr>forwarded := forwarded s @ [p]\<rparr>) \<and>
             history_ok (s\<lparr>forwarded := forwarded s @ [p]\<rparr>)"
    by simp
qed

lemma import_message_tracked:
  assumes "import_message env msg st = Inr st'"
  shows "tracked st' p = (tracked st p \<or> (valid_message msg \<and> p = sender_of msg))"
proof (cases "check_message msg")
  case (Inl w)
  then show ?thesis using assms check_message_invalid[OF Inl]
    by (auto simp: import_message_invalid tracked_def)
next
  case (Inr x)
  obtain pid nm t ty where x: "x = (pid, nm, t, ty)" by (cases x)
  note v = check_message_valid[OF Inr[unfolded x]]
  from import_message_valid[OF Inr[unfolded x] assms] obtain st1 st2 i where
    1: "if memberIdMap st pid = None then ensure_member env pid nm None st = Inr st1
        else st1 = st"
    and 3: "exec env (insertMessage_sql i t ty (content msg)) st1 = Inr st2"
    and 4: "track_nickname env pid i nm t st2 = Inr st'"
    by blast
  have a: "nicknameTracker st1 = nicknameTracker st"
    using 1 ensure_member_effect(5) by (cases "memberIdMap st pid = None") auto
  have b: "nicknameTracker st2 = nicknameTracker st1" using 3 by (auto simp: exec_eq_Inr)
  show ?thesis using track_nickname_effect(6)[OF 4] a b v by (auto simp: tracked_def)
qed

lemma onMessageBatch_tracked:
  assumes "onMessageBatch env msgs st = Inr st'"
  shows "tracked st' p =
           (tracked st p \<or> p \<in> set (map sender_of (filter valid_message msgs)))"
  using assms
proof (induction msgs arbitrary: st)
  case Nil
  then show ?case by simp
next
  case (Cons m ms)
  from Cons.prems obtain st1 where
    1: "import_message env m st = Inr st1" and 2: "onMessageBatch env ms st1 = Inr st'"
    by (auto simp: bindE_eq_Inr)
  show ?case using import_message_tracked[OF 1, of p] Cons.IH[OF 2] by auto
qed

lemma onMembers_tracker:
  assumes "onMembers env ms st = Inr st'"
  shows "nicknameTracker st' = nicknameTracker st"
  using assms
proof (induction ms arbitrary: st)
  case Nil
  then show ?case by simp
next
  case (Cons m ms)
  from Cons.prems obtain st1 where
    1: "ensure_member env (platformId m) (name m) (or_null (pm_nickname m)) st = Inr st1"
    and 2: "onMembers env ms st1 = Inr st'"
    by (auto simp: bindE_eq_Inr)
  show ?case using ensure_member_effect(5)[OF 1] Cons.IH[OF 2] by simp
qed

lemma callbacks_tracked:
  assumes "callbacks env es st = Inr st'"
  shows "tracked st' p =
           (tracked st p \<or> p \<in> set (map sender_of (filter valid_message (all_messages es))))"
  using assms
proof (induction es arbitrary: st)
  case Nil
  then show ?case by simp
next
  case (Cons e es)
  from Cons.prems obtain st1 where
    1: "callback env e st = Inr st1" and 2: "callbacks env es st1 = Inr st'"
    by (auto simp: bindE_eq_Inr)
  note ih = Cons.IH[OF 2]
  show ?case
  proof (cases e)
    case (OnProgress q)
    then show ?thesis using 1 ih by (auto simp: tracked_def)
  next
    case (OnMeta m)
    then have "nicknameTracker st1 = nicknameTracker st"
      using 1 by (auto simp: onMeta_def bindE_eq_Inr exec_eq_Inr split: if_splits)
    then show ?thesis using OnMeta ih by (simp add: tracked_def)
  next
    case (OnMembers ms)
    then show ?thesis using 1 onMembers_tracker[of env ms st st1] ih by (simp add: tracked_def)
  next
    case (OnMessageBatch msgs)
    then show ?thesis using 1 onMessageBatch_tracked[of env msgs st st1 p] ih by auto
  qed
qed

lemma history_ok_start: "history_ok (start_state empty_tables)"
  by (simp add: history_ok_def tracked_def rows_of_def start_state_def empty_tables_def)

subsection \<open>The rows of a member are the history of its observations\<close>

lemma spec_history_snoc: "spec_history (obs @ [ob]) = observe (spec_history obs) ob"
  by (simp add: spec_history_def)

lemma spec_history_Nil [simp]: "spec_history [] = []"
  by (simp add: spec_history_def)

lemma observe_not_Nil: "observe ivs ob \<noteq> []"
  by (simp add: observe_def)

lemma spec_history_Nil_iff: "(spec_history obs = []) = (obs = [])"
  by (cases obs rule: rev_cases) (simp_all add: spec_history_snoc observe_not_Nil)

lemma remdups_adj_snoc:
  "remdups_adj (xs @ [x]) =
     (if xs \<noteq> [] \<and> last xs = x then remdups_adj xs else remdups_adj xs @ [x])"
proof (cases xs rule: rev_cases)
  case Nil
  then show ?thesis by simp
next
  case (snoc ys y)
  then show ?thesis by (simp add: remdups_adj_append_two)
qed

lemma spec_history_names: "map fst (spec_history obs) = remdups_adj (map fst obs)"
proof (induction obs rule: rev_induct)
  case Nil
  then show ?case by simp
next
  case (snoc ob obs)
  let ?H = "spec_history obs"
  show ?case
  proof (cases "obs = []")
    case True
    then show ?thesis using spec_history_snoc[of "[]" ob] by (simp add: observe_def)
  next
    case False
    then have H: "?H \<noteq> []" by (simp add: spec_history_Nil_iff)
    have l: "fst (last ?H) = fst (last obs)"
      using snoc.IH H False last_remdups_adj[of "map fst obs"]
      by (metis last_map map_is_Nil_conv)
    have m: "map fst (butlast ?H) @ [fst (last ?H)] = map fst ?H"
      using H by (metis append_butlast_last_id map_append list.simps(8,9))
    show ?thesis
    proof (cases "fst (last obs) = fst ob")
      case True
      then show ?thesis using H False l snoc.IH
        by (simp add: spec_history_snoc observe_def remdups_adj_snoc last_map)
    next
      case neq: False
      then show ?thesis using H False l snoc.IH m
        by (simp add: spec_history_snoc observe_def remdups_adj_snoc last_map)
    qed
  qed
qed

lemma observed_snoc:
  "observed p (msgs @ [m]) =
     observed p msgs @
       (if valid_message m \<and> sender_of m = p then [(name_of m, ts_of m)] else [])"
  by (simp add: observed_def)

lemma observed_append: "observed p (xs @ ys) = observed p xs @ observed p ys"
  by (simp add: observed_def)

lemma observed_Nil [simp]: "observed p [] = []"
  by (simp add: observed_def)

lemma interval_of_close:
  assumes "rs \<noteq> []" and "contiguous rs" and "\<forall>r\<in>set rs. nh_member_id r = i"
  shows "map interval_of (map (close_interval t i) rs) =
           butlast (map interval_of rs) @ [(nh_name (last rs), start_ts (last rs), Some t)]"
  using assms
proof (induction rs rule: contiguous.induct)
  case 1
  then show ?case by simp
next
  case (2 r)
  then show ?case by (simp add: close_interval_def interval_of_def)
next
  case (3 r r' rs)
  have "close_interval t i r = r" using "3.prems"(2) by (simp add: close_interval_closed)
  then show ?case using "3.IH" "3.prems" by simp
qed

lemma track_nickname_rows:
  assumes r: "track_nickname env pid i nm t st = Inr st'"
  shows "j \<noteq> i \<Longrightarrow> rows_of j (db st') = rows_of j (db st)"
    and "rows_of i (db st') =
          (case map_of (nicknameTracker st) pid of
             None \<Rightarrow> rows_of i (db st) @
                [\<lparr> nh_id = Suc (length (member_name_history (db st))), nh_member_id = i,
                   nh_name = nm, start_ts = t, end_ts = None \<rparr>]
           | Some (cur, seen) \<Rightarrow>
               if cur \<noteq> nm
               then map (close_interval t i) (rows_of i (db st)) @
                [\<lparr> nh_id = Suc (length (member_name_history (db st))), nh_member_id = i,
                   nh_name = nm, start_ts = t, end_ts = None \<rparr>]
               else rows_of i (db st))"
proof -
  note e = track_nickname_effect[OF r]
  show "j \<noteq> i \<Longrightarrow> rows_of j (db st') = rows_of j (db st)"
    by (cases "map_of (nicknameTracker st) pid")
       (auto simp: rows_of_def e(7) filter_close_other)
  show "rows_of i (db st') =
          (case map_of (nicknameTracker st) pid of
             None \<Rightarrow> rows_of i (db st) @
                [\<lparr> nh_id = Suc (length (member_name_history (db st))), nh_member_id = i,
                   nh_name = nm, start_ts = t, end_ts = None \<rparr>]
           | Some (cur, seen) \<Rightarrow>
               if cur \<noteq> nm
               then map (close_interval t i) (rows_of i (db st)) @
                [\<lparr> nh_id = Suc (length (member_name_history (db st))), nh_member_id = i,
                   nh_name = nm, start_ts = t, end_ts = None \<rparr>]
               else rows_of i (db st))"
    by (cases "map_of (nicknameTracker st) pid")
       (auto simp: rows_of_def e(7) filter_close_same)
qed


lemma history_matches_frame:
  assumes "nicknameTracker st' = nicknameTracker st" and "memberIdMap st' = memberIdMap st"
    and "member_name_history (db st') = member_name_history (db st)"
  shows "history_matches st' msgs = history_matches st msgs"
  by (simp add: history_matches_def tracked_def rows_of_def assms)

lemma history_matches_invalid:
  "\<not> valid_message m \<Longrightarrow> history_matches st (msgs @ [m]) = history_matches st msgs"
  by (simp add: history_matches_def observed_snoc)

lemma ensure_member_tracked_same:
  assumes ok: "members_ok st" and h: "history_ok st"
    and r: "ensure_member env pid nm nick st = Inr st'" and t: "tracked st p"
  shows "memberIdMap st' p = memberIdMap st p"
proof -
  note e = ensure_member_effect[OF r]
  obtain j where j: "memberIdMap st p = Some j" using h t by (auto simp: history_ok_def)
  show ?thesis
  proof (cases "p = pid")
    case True
    have "getMemberId_sql pid (db st) = Some j" using ok j True by (simp add: members_ok_def)
    then have "getMemberId_sql pid (db st') = Some j"
      by (simp add: e(4) getMemberId_insert_keep)
    then show ?thesis using True j by (simp add: e(2))
  next
    case False
    then show ?thesis by (simp add: e(2))
  qed
qed

lemma ensure_member_history_matches:
  assumes ok: "members_ok st" and h: "history_ok st" and hm: "history_matches st msgs"
    and r: "ensure_member env pid nm nick st = Inr st'"
  shows "history_matches st' msgs"
proof -
  note e = ensure_member_effect[OF r]
  have hist: "member_name_history (db st') = member_name_history (db st)"
    by (simp add: e(4) insertMember_sql_def)
  have rows: "\<And>i. rows_of i (db st') = rows_of i (db st)" by (simp add: rows_of_def hist)
  have tr: "\<And>p. tracked st' p = tracked st p" by (simp add: tracked_def e(5))
  show ?thesis
    unfolding history_matches_def
  proof (intro allI conjI impI)
    fix p
    show "tracked st' p = (observed p msgs \<noteq> [])"
      using hm by (simp add: tr history_matches_def)
  next
    fix p i
    assume a: "tracked st' p" "memberIdMap st' p = Some i"
    then have t: "tracked st p" by (simp add: tr)
    have "memberIdMap st p = Some i"
      using ensure_member_tracked_same[OF ok h r t] a(2) by simp
    then show "map interval_of (rows_of i (db st')) = spec_history (observed p msgs)"
      using hm t unfolding history_matches_def rows by blast
  qed
qed

lemma track_nickname_history_matches:
  assumes ok: "members_ok st" and h: "history_ok st" and hm: "history_matches st msgs"
    and m: "memberIdMap st pid = Some i"
    and r: "track_nickname env pid i nm t st = Inr st'"
    and v: "valid_message msg" "sender_of msg = pid" "name_of msg = nm" "ts_of msg = t"
  shows "history_matches st' (msgs @ [msg])"
proof -
  note e = track_nickname_effect[OF r]
  note rw = track_nickname_rows[OF r]
  let ?n = "\<lparr> nh_id = Suc (length (member_name_history (db st))), nh_member_id = i,
              nh_name = nm, start_ts = t, end_ts = None \<rparr>"
  let ?H = "spec_history (observed pid msgs)"
  have tr: "\<And>p. tracked st' p = (p = pid \<or> tracked st p)"
    by (simp add: tracked_def e(6))
  have inj: "\<And>p. memberIdMap st p = Some i \<Longrightarrow> p = pid"
    using members_ok_inj[OF ok _ m] by blast
  have obs_pid: "observed pid (msgs @ [msg]) = observed pid msgs @ [(nm, t)]"
    using v by (simp add: observed_snoc)
  have obs_other: "\<And>p. p \<noteq> pid \<Longrightarrow> observed p (msgs @ [msg]) = observed p msgs"
    using v by (simp add: observed_snoc)
  have R: "map interval_of (rows_of i (db st')) = observe ?H (nm, t)"
  proof (cases "map_of (nicknameTracker st) pid")
    case None
    then have nt: "\<not> tracked st pid" by (simp add: tracked_def)
    then have "\<forall>p. tracked st p \<longrightarrow> memberIdMap st p \<noteq> Some i" using inj by blast
    then have "rows_of i (db st) = []" using h by (simp add: history_ok_def)
    then have "rows_of i (db st') = [?n]" using None by (simp add: rw(2))
    moreover have "observed pid msgs = []" using hm nt by (simp add: history_matches_def)
    ultimately show ?thesis by (simp add: observe_def interval_of_def)
  next
    case (Some a)
    obtain cur seen where a: "a = (cur, seen)" by (cases a)
    have t: "tracked st pid" using Some by (simp add: tracked_def)
    have c: "rows_of i (db st) \<noteq> []" "contiguous (rows_of i (db st))"
      "nh_name (last (rows_of i (db st))) = cur"
      using h Some a m unfolding history_ok_def by blast+
    have H: "map interval_of (rows_of i (db st)) = ?H"
      using hm t m unfolding history_matches_def by blast
    then have Hne: "?H \<noteq> []" using c(1) by (metis map_is_Nil_conv)
    have lastH: "last ?H = interval_of (last (rows_of i (db st)))"
      using H c(1) by (metis last_map)
    show ?thesis
    proof (cases "cur = nm")
      case True
      then have "rows_of i (db st') = rows_of i (db st)" using Some a by (simp add: rw(2))
      then show ?thesis using H Hne lastH c(3) True
        by (simp add: observe_def interval_of_def)
    next
      case False
      then have eq: "rows_of i (db st') = map (close_interval t i) (rows_of i (db st)) @ [?n]"
        using Some a by (simp add: rw(2))
      have all: "\<forall>r\<in>set (rows_of i (db st)). nh_member_id r = i" by (simp add: rows_of_def)
      have "map interval_of (rows_of i (db st')) =
          butlast ?H @ [(nh_name (last (rows_of i (db st))),
                         start_ts (last (rows_of i (db st))), Some t), (nm, t, None)]"
        unfolding eq using interval_of_close[OF c(1) c(2) all, of t] H
        by (simp add: interval_of_def)
      then show ?thesis using Hne lastH c(3) False
        by (simp add: observe_def interval_of_def)
    qed
  qed
  show ?thesis
    unfolding history_matches_def
  proof (intro allI conjI impI)
    fix p
    show "tracked st' p = (observed p (msgs @ [msg]) \<noteq> [])"
    proof (cases "p = pid")
      case True
      then show ?thesis by (simp add: tr obs_pid)
    next
      case False
      then show ?thesis using hm by (simp add: tr obs_other history_matches_def)
    qed
  next
    fix p j
    assume a: "tracked st' p" "memberIdMap st' p = Some j"
    show "map interval_of (rows_of j (db st')) = spec_history (observed p (msgs @ [msg]))"
    proof (cases "p = pid")
      case True
      then have "j = i" using a(2) m by (simp add: e(4))
      then show ?thesis using R True by (simp add: obs_pid spec_history_snoc)
    next
      case False
      then have t: "tracked st p" using a(1) by (simp add: tr)
      have mj: "memberIdMap st p = Some j" using a(2) by (simp add: e(4))
      then have ji: "j \<noteq> i" using inj False by blast
      have "map interval_of (rows_of j (db st)) = spec_history (observed p msgs)"
        using hm t mj unfolding history_matches_def by blast
      then show ?thesis using rw(1)[OF ji] False by (simp add: obs_other)
    qed
  qed
qed

lemma check_message_fields:
  "check_message msg = Inr (pid, nm, t, ty) \<Longrightarrow> name_of msg = nm \<and> ts_of msg = t"
  using check_message_valid[of msg pid nm t ty] by (simp add: name_of_def ts_of_def)

lemma import_message_matches:
  assumes ok: "members_ok st \<and> history_ok st" and hm: "history_matches st msgs"
    and r: "import_message env msg st = Inr st'"
  shows "history_matches st' (msgs @ [msg])"
proof (cases "check_message msg")
  case (Inl w)
  then have s': "st' = st\<lparr> warnings := warnings st @ [w] \<rparr>"
    using r by (simp add: import_message_invalid)
  have "history_matches st' msgs = history_matches st msgs"
    unfolding s' by (intro history_matches_frame) simp_all
  then show ?thesis using hm check_message_invalid[OF Inl]
    by (simp add: history_matches_invalid)
next
  case (Inr x)
  obtain pid nm t ty where x: "x = (pid, nm, t, ty)" by (cases x)
  note v = check_message_valid[OF Inr[unfolded x]]
  note f = check_message_fields[OF Inr[unfolded x]]
  from import_message_valid[OF Inr[unfolded x] r] obtain st1 st2 i where
    1: "if memberIdMap st pid = None then ensure_member env pid nm None st = Inr st1
        else st1 = st"
    and 2: "memberIdMap st1 pid = Some i"
    and 3: "exec env (insertMessage_sql i t ty (content msg)) st1 = Inr st2"
    and 4: "track_nickname env pid i nm t st2 = Inr st'"
    by blast
  have ok1: "members_ok st1 \<and> history_ok st1"
    using 1 ok ensure_member_members_ok ensure_member_history_ok
    by (cases "memberIdMap st pid = None") auto
  have hm1: "history_matches st1 msgs"
    using 1 ok hm ensure_member_history_matches
    by (cases "memberIdMap st pid = None") auto
  have m2: "memberIdMap st2 pid = Some i" using 2 3 by (auto simp: exec_eq_Inr)
  have ok2: "members_ok st2" using ok1 3
    by (auto intro: exec_members_ok simp: insertMessage_sql_def)
  have h2: "history_ok st2" using ok1 3
    by (auto intro: exec_history_ok simp: insertMessage_sql_def)
  have "history_matches st2 msgs = history_matches st1 msgs"
    using 3 by (intro history_matches_frame) (auto simp: exec_eq_Inr insertMessage_sql_def)
  then have hm2: "history_matches st2 msgs" using hm1 by simp
  show ?thesis
    using track_nickname_history_matches[OF ok2 h2 hm2 m2 4] v f by simp
qed

lemma onMessageBatch_matches:
  assumes "members_ok st \<and> history_ok st" and "history_matches st msgs"
    and "onMessageBatch env batch st = Inr st'"
  shows "history_matches st' (msgs @ batch)"
  using assms
proof (induction batch arbitrary: st msgs)
  case Nil
  then show ?case by simp
next
  case (Cons m ms)
  from Cons.prems(3) obtain st1 where
    1: "import_message env m st = Inr st1" and 2: "onMessageBatch env ms st1 = Inr st'"
    by (auto simp: bindE_eq_Inr)
  have ok1: "members_ok st1 \<and> history_ok st1"
    using Cons.prems(1) 1 by (rule import_message_both_ok)
  have hm1: "history_matches st1 (msgs @ [m])"
    using Cons.prems(1,2) 1 by (rule import_message_matches)
  from Cons.IH[OF ok1 hm1 2] show ?case by simp
qed

lemma onMembers_matches:
  assumes "members_ok st \<and> history_ok st \<and> history_matches st msgs"
    and "onMembers env ms st = Inr st'"
  shows "members_ok st' \<and> history_ok st' \<and> history_matches st' msgs"
proof (rule onMembers_preserves[where
      I = "\<lambda>s. members_ok s \<and> history_ok s \<and> history_matches s msgs" and env = env,
      OF _ assms])
  fix pid nm nick s s'
  assume "members_ok s \<and> history_ok s \<and> history_matches s msgs"
    "ensure_member env pid nm nick s = Inr s'"
  then show "members_ok s' \<and> history_ok s' \<and> history_matches s' msgs"
    using ensure_member_members_ok ensure_member_history_ok ensure_member_history_matches
    by blast
qed

lemma callbacks_matches:
  assumes "members_ok st \<and> history_ok st" and "history_matches st msgs"
    and "callbacks env es st = Inr st'"
  shows "history_matches st' (msgs @ all_messages es)"
  using assms
proof (induction es arbitrary: st msgs)
  case Nil
  then show ?case by simp
next
  case (Cons e es)
  from Cons.prems(3) obtain st1 where
    1: "callback env e st = Inr st1" and 2: "callbacks env es st1 = Inr st'"
    by (auto simp: bindE_eq_Inr)
  have ok1: "members_ok st1 \<and> history_ok st1"
    using callbacks_both_ok[OF Cons.prems(1), of env "[e]" st1] 1 by simp
  show ?case
  proof (cases e)
    case (OnProgress p)
    then have s1: "st1 = st\<lparr> forwarded := forwarded st @ [p] \<rparr>" using 1 by auto
    have "history_matches st1 msgs = history_matches st msgs"
      unfolding s1 by (intro history_matches_frame) simp_all
    then show ?thesis using Cons.IH[OF ok1 _ 2, of msgs] Cons.prems(2) OnProgress by simp
  next
    case (OnMeta m)
    have "nicknameTracker st1 = nicknameTracker st \<and> memberIdMap st1 = memberIdMap st \<and>
        member_name_history (db st1) = member_name_history (db st)"
      using 1 OnMeta by (auto simp: onMeta_def bindE_eq_Inr exec_eq_Inr insertMeta_sql_def
          split: if_splits)
    then have "history_matches st1 msgs = history_matches st msgs"
      by (intro history_matches_frame) simp_all
    then show ?thesis using Cons.IH[OF ok1 _ 2, of msgs] Cons.prems(2) OnMeta by simp
  next
    case (OnMembers ms)
    then have "history_matches st1 msgs"
      using onMembers_matches[of st msgs env ms st1] Cons.prems(1,2) 1 by simp
    then show ?thesis using Cons.IH[OF ok1 _ 2, of msgs] OnMembers by simp
  next
    case (OnMessageBatch batch)
    then have "history_matches st1 (msgs @ batch)"
      using onMessageBatch_matches[OF Cons.prems(1,2), of env batch st1] 1 by simp
    then show ?thesis using Cons.IH[OF ok1 _ 2, of "msgs @ batch"] OnMessageBatch by simp
  qed
qed

lemma history_matches_start: "history_matches (start_state empty_tables) []"
  by (simp add: history_matches_def tracked_def start_state_def)

lemma observed_Nil_iff:
  "(observed p msgs \<noteq> []) = (p \<in> set (map sender_of (filter valid_message msgs)))"
  by (auto simp: observed_def filter_empty_conv)

lemma try_block_history_spec:
  assumes "try_block env (events, perr) empty_tables = Inr st"
    and "msg \<in> set (all_messages events)" and "valid_message msg"
  shows "\<exists>i. getMemberId_sql (sender_of msg) (db st) = Some i \<and>
             rows_of i (db st) \<noteq> [] \<and> contiguous (rows_of i (db st)) \<and>
             map interval_of (rows_of i (db st)) =
               spec_history (observed (sender_of msg) (all_messages events))"
proof -
  from try_block_Inr[OF assms(1)] obtain st1 st2 where
    1: "callbacks env events (start_state empty_tables) = Inr st1"
    and 2: "update_member_names env (nicknameTracker st1) st1 = Inr st2"
    and 3: "db st = db st2"
    by auto
  have ok0: "members_ok (start_state empty_tables) \<and> history_ok (start_state empty_tables)"
    using members_ok_start history_ok_start by simp
  have ok: "members_ok st1 \<and> history_ok st1"
    using callbacks_both_ok[OF ok0 1] .
  have hm: "history_matches st1 (all_messages events)"
    using callbacks_matches[OF ok0 history_matches_start 1] by simp
  have t: "tracked st1 (sender_of msg)"
    using callbacks_tracked[OF 1, of "sender_of msg"] assms(2,3) by auto
  then obtain a where a: "map_of (nicknameTracker st1) (sender_of msg) = Some a"
    by (auto simp: tracked_def)
  obtain cur seen where c: "a = (cur, seen)" by (cases a)
  obtain i where i: "memberIdMap st1 (sender_of msg) = Some i"
    using ok t by (auto simp: history_ok_def)
  have r: "rows_of i (db st1) \<noteq> [] \<and> contiguous (rows_of i (db st1))"
    using ok a c i unfolding history_ok_def by blast
  have s: "map interval_of (rows_of i (db st1)) =
      spec_history (observed (sender_of msg) (all_messages events))"
    using hm t i unfolding history_matches_def by blast
  have g: "getMemberId_sql (sender_of msg) (db st1) = Some i"
    using ok i by (simp add: members_ok_def)
  have "rows_of i (db st) = rows_of i (db st1)"
    using update_member_names_effect(3)[OF 2] 3 by (simp add: rows_of_def)
  moreover have "getMemberId_sql (sender_of msg) (db st) = Some i"
    using update_member_names_getMemberId[OF 2] g 3 by simp
  ultimately show ?thesis using r s by auto
qed

text \<open>
  Claim C4, as the code has it. After a committed import into a fresh store, every
  sender of a message that passed the checks has a member row, and the history rows of
  that member, in the order of their insertion, are the history of its observations:
  the first message opens an interval with its name at its timestamp, a message with
  the name of the open interval writes no row, and a message with another name closes
  the open interval at its timestamp and opens a new one with the new name there. So
  the names of the rows are the observed names with adjacent repetitions removed, the
  rows are contiguous in insertion order (each interval ends at the timestamp at which
  the next starts, the last is open), and exactly one of them has no end. Ordered by
  \<open>start_ts\<close> they are the same list, and contiguous, whenever their start timestamps
  do not decrease.
\<close>

theorem nickname_history_intervals:
  assumes fmt: "detectFormat env filePath = Some f"
    and prep: "prepare env filePath fs = Ready actual tmp fs1"
    and fresh: "fs1 (getDbPath env) = None"
    and other: "tmp \<noteq> Some (getDbPath env)"
    and body: "try_block env (streamParseFile env actual 5000) empty_tables = Inr st"
  shows "(\<exists>fs'. streamImport env filePath fs = (Returns (committed env), fs') \<and>
              fs' (getDbPath env) = Some (Db (db st))) \<and>
         (\<forall>msg\<in>set (all_messages (fst (streamParseFile env actual 5000))).
            valid_message msg \<longrightarrow>
            (\<exists>i. getMemberId_sql (sender_of msg) (db st) = Some i \<and>
                 map interval_of (rows_of i (db st)) =
                   spec_history (observed (sender_of msg)
                     (all_messages (fst (streamParseFile env actual 5000)))) \<and>
                 map nh_name (rows_of i (db st)) =
                   remdups_adj (map fst (observed (sender_of msg)
                     (all_messages (fst (streamParseFile env actual 5000))))) \<and>
                 length (open_rows (rows_of i (db st))) = 1 \<and>
                 contiguous (rows_of i (db st)) \<and>
                 (sorted (map start_ts (rows_of i (db st))) \<longrightarrow>
                    contiguous (sort_key start_ts (rows_of i (db st))))))"
proof -
  obtain events perr where p: "streamParseFile env actual 5000 = (events, perr)"
    by (cases "streamParseFile env actual 5000")
  have a: "\<exists>fs'. streamImport env filePath fs = (Returns (committed env), fs') \<and>
              fs' (getDbPath env) = Some (Db (db st))"
    using streamImport_commits[OF fmt prep fresh other body] .
  have b: "\<forall>msg\<in>set (all_messages events).
            valid_message msg \<longrightarrow>
            (\<exists>i. getMemberId_sql (sender_of msg) (db st) = Some i \<and>
                 map interval_of (rows_of i (db st)) =
                   spec_history (observed (sender_of msg) (all_messages events)) \<and>
                 map nh_name (rows_of i (db st)) =
                   remdups_adj (map fst (observed (sender_of msg) (all_messages events))) \<and>
                 length (open_rows (rows_of i (db st))) = 1 \<and>
                 contiguous (rows_of i (db st)) \<and>
                 (sorted (map start_ts (rows_of i (db st))) \<longrightarrow>
                    contiguous (sort_key start_ts (rows_of i (db st)))))"
  proof (intro ballI impI)
    fix msg
    assume m: "msg \<in> set (all_messages events)" and v: "valid_message msg"
    from try_block_history_spec[OF body[unfolded p] m v] obtain i where
      i: "getMemberId_sql (sender_of msg) (db st) = Some i"
         "rows_of i (db st) \<noteq> []" "contiguous (rows_of i (db st))"
         "map interval_of (rows_of i (db st)) =
            spec_history (observed (sender_of msg) (all_messages events))"
      by auto
    have "map nh_name (rows_of i (db st)) = map fst (map interval_of (rows_of i (db st)))"
      by (simp add: interval_of_def comp_def)
    then have n: "map nh_name (rows_of i (db st)) =
        remdups_adj (map fst (observed (sender_of msg) (all_messages events)))"
      unfolding i(4) by (simp add: spec_history_names)
    have o: "length (open_rows (rows_of i (db st))) = 1"
      using i(2,3) by (rule contiguous_one_open)
    have q: "sorted (map start_ts (rows_of i (db st))) \<longrightarrow>
        contiguous (sort_key start_ts (rows_of i (db st)))"
      using i(3) by (simp add: sort_key_id_if_sorted)
    show "\<exists>i. getMemberId_sql (sender_of msg) (db st) = Some i \<and>
                 map interval_of (rows_of i (db st)) =
                   spec_history (observed (sender_of msg) (all_messages events)) \<and>
                 map nh_name (rows_of i (db st)) =
                   remdups_adj (map fst (observed (sender_of msg) (all_messages events))) \<and>
                 length (open_rows (rows_of i (db st))) = 1 \<and>
                 contiguous (rows_of i (db st)) \<and>
                 (sorted (map start_ts (rows_of i (db st))) \<longrightarrow>
                    contiguous (sort_key start_ts (rows_of i (db st))))"
      using i(1,3,4) n o q by blast
  qed
  show ?thesis using a b unfolding p by simp
qed

theorem nickname_history_intervals_witness:
  "fst (streamImport (ex_env ex_names_run no_fault) ex_path Map.empty) =
     Returns (committed (ex_env ex_names_run no_fault)) \<and>
   (case snd (streamImport (ex_env ex_names_run no_fault) ex_path Map.empty)
           (getDbPath (ex_env ex_names_run no_fault)) of
      Some (Db t) \<Rightarrow> rows_of 1 t | _ \<Rightarrow> []) =
     [\<lparr> nh_id = 1, nh_member_id = 1, nh_name = ''A'', start_ts = 10, end_ts = Some 20 \<rparr>,
      \<lparr> nh_id = 3, nh_member_id = 1, nh_name = ''B'', start_ts = 20, end_ts = Some 40 \<rparr>,
      \<lparr> nh_id = 4, nh_member_id = 1, nh_name = ''A'', start_ts = 40, end_ts = None \<rparr>] \<and>
   observed ''p'' (all_messages (fst ex_names_run)) =
     [(''A'', 10), (''B'', 20), (''B'', 30), (''A'', 40)] \<and>
   spec_history (observed ''p'' (all_messages (fst ex_names_run))) =
     [(''A'', 10, Some 20), (''B'', 20, Some 40), (''A'', 40, None)]"
proof -
  let ?E = "ex_env ex_names_run no_fault"
  have "case try_block ?E (streamParseFile ?E ex_path 5000) empty_tables of
          Inl e \<Rightarrow> False | Inr st \<Rightarrow> True"
    by code_simp
  then obtain st where
    b: "try_block ?E (streamParseFile ?E ex_path 5000) empty_tables = Inr st"
    by (auto split: sum.splits)
  have v: "(case snd (streamImport ?E ex_path Map.empty) (getDbPath ?E) of
      Some (Db t) \<Rightarrow> rows_of 1 t | _ \<Rightarrow> []) =
     [\<lparr> nh_id = 1, nh_member_id = 1, nh_name = ''A'', start_ts = 10, end_ts = Some 20 \<rparr>,
      \<lparr> nh_id = 3, nh_member_id = 1, nh_name = ''B'', start_ts = 20, end_ts = Some 40 \<rparr>,
      \<lparr> nh_id = 4, nh_member_id = 1, nh_name = ''A'', start_ts = 40, end_ts = None \<rparr>]"
    by code_simp
  have w: "observed ''p'' (all_messages (fst ex_names_run)) =
     [(''A'', 10), (''B'', 20), (''B'', 30), (''A'', 40)]"
    by code_simp
  have x: "spec_history (observed ''p'' (all_messages (fst ex_names_run))) =
     [(''A'', 10, Some 20), (''B'', 20, Some 40), (''A'', 40, None)]"
    by code_simp
  have fr: "Map.empty (getDbPath ?E) = None" by simp
  have ot: "None \<noteq> Some (getDbPath ?E)" by simp
  from nickname_history_intervals[OF ex_env_facts(1) ex_env_facts(2) fr ot b,
      THEN conjunct1]
  obtain fs' where "streamImport ?E ex_path Map.empty = (Returns (committed ?E), fs')"
    by blast
  then have "fst (streamImport ?E ex_path Map.empty) = Returns (committed ?E)" by simp
  then show ?thesis using v w x by simp
qed

text \<open>
  The claim as stated orders the rows by \<open>start_ts\<close>. The sender \<open>p\<close> below is seen
  as \<open>A\<close> at 100 and as \<open>B\<close> at 50 (timestamps need not increase through a file):
  the first interval is closed at 50 and the second opens at 50. By \<open>start_ts\<close> the
  open interval comes first and the interval from 100 to 50 follows it.
\<close>

theorem nickname_history_counterexample:
  "valid_message (ex_msg ''p'' ''A'' 100) \<and> valid_message (ex_msg ''p'' ''B'' 50) \<and>
   fst (streamImport (ex_env ex_rename_run no_fault) ex_path Map.empty) =
     Returns (committed (ex_env ex_rename_run no_fault)) \<and>
   (case snd (streamImport (ex_env ex_rename_run no_fault) ex_path Map.empty)
           (getDbPath (ex_env ex_rename_run no_fault)) of
      Some (Db t) \<Rightarrow> sort_key start_ts (rows_of 1 t) | _ \<Rightarrow> []) =
     [\<lparr> nh_id = 2, nh_member_id = 1, nh_name = ''B'', start_ts = 50, end_ts = None \<rparr>,
      \<lparr> nh_id = 1, nh_member_id = 1, nh_name = ''A'', start_ts = 100, end_ts = Some 50 \<rparr>] \<and>
   \<not> contiguous
     [\<lparr> nh_id = 2, nh_member_id = 1, nh_name = ''B'', start_ts = 50, end_ts = None \<rparr>,
      \<lparr> nh_id = 1, nh_member_id = 1, nh_name = ''A'', start_ts = 100, end_ts = Some 50 \<rparr>]"
  by code_simp

end
